theory Spec2Isabelle
  imports Complex_Main "HOL-Library.AList" "HOL-Library.Word" "HOL-Library.Log_Nat"
begin

section \<open>The browser client (src/client/main.js)\<close>

text \<open>
  The client keeps its state in module-level variables and mutates them from event
  handlers. The model is a record of those variables and one function per handler,
  taking the state and returning the new one. JavaScript runs each handler to completion
  before the next event is delivered, so a run of the client is a list of events.

  Left out of the record, because no handler reads them back: the latency timestamps in
  \<^verbatim>\<open>metrics\<close>, the status labels, the audio status text and the messages written to the
  socket. Strings are lists of code units below 256.
\<close>

type_synonym bytes = "8 word list"

text \<open>\<^verbatim>\<open>new Blob(entry.chunks, { type: "audio/wav" })\<close>: the chunks one after another.\<close>

definition Blob :: "bytes list \<Rightarrow> bytes" where
  "Blob cs = concat cs"

text \<open>An entry of \<^verbatim>\<open>phraseBuffers\<close>: \<^verbatim>\<open>{ chunks: [], done: false }\<close>.\<close>

record entry =
  chunks :: "bytes list"
  is_done :: bool

text \<open>
  \<^verbatim>\<open>phraseBuffers\<close> is a JavaScript \<^verbatim>\<open>Map\<close>: finite, and kept here as an association
  list with one pair per key (\<open>AList.update\<close>, \<open>AList.delete\<close>, \<open>map_of\<close>).

  Two fields are history variables that the source does not have and that no handler
  reads: \<open>released\<close> lists the sequence number of every blob pushed on
  \<^verbatim>\<open>playbackQueue\<close>, in push order, and \<open>loaded\<close> lists every blob handed to the
  audio element (\<^verbatim>\<open>player.src = url; player.load()\<close>), oldest first.
\<close>

record client =
  ws_open :: bool
  recording :: bool
  phraseBuffers :: "(int \<times> entry) list"
  playbackQueue :: "bytes list"
  nextSeqToPlay :: int
  playing :: bool
  currentAudioUrl :: "bytes option"
  onended :: bool
  pendingAssistant :: string
  conversation :: "(string \<times> string) list"
  logsBuffer :: "string list"
  partialPanel :: string
  finalPanel :: string
  tokensPanel :: string
  released :: "int list"
  loaded :: "bytes list"

text \<open>
  The messages of the server after \<^verbatim>\<open>JSON.parse\<close>. \<open>LlmToken\<close> carries the optional
  \<^verbatim>\<open>text\<close> field and the \<^verbatim>\<open>done\<close> flag (absent is false). \<open>TtsChunk\<close> carries the
  sequence number and the bytes \<^verbatim>\<open>atob\<close> decodes from \<^verbatim>\<open>audio_b64\<close>, \<open>None\<close> when
  \<^verbatim>\<open>atob\<close> rejects the payload. \<open>Unknown\<close> is a message of any other type, or one that
  is not a string.
\<close>

datatype server_msg =
    PartialTranscript string
  | FinalTranscript string
  | LlmToken "string option" bool
  | TtsChunk int "bytes option"
  | TtsPhraseDone int
  | TtsComplete
  | Info string
  | Error string
  | Log string
  | Unknown

subsection \<open>Conversation memory\<close>

text \<open>
  \<^verbatim>\<open>String.prototype.trim\<close> strips white space and line terminators from both ends;
  below 256 these are TAB, LF, VT, FF, CR, SPACE and NBSP.
\<close>

definition is_space :: "char \<Rightarrow> bool" where
  "is_space c = ((of_char c :: nat) \<in> {9, 10, 11, 12, 13, 32, 160})"

definition trim :: "string \<Rightarrow> string" where
  "trim t = rev (dropWhile is_space (rev (dropWhile is_space t)))"

text \<open>
  \<^verbatim>\<open>pushConversation(role, text)\<close>: nothing for a text that trims to the empty string;
  otherwise the trimmed text is appended and the oldest items are shifted out while more
  than twelve remain.
\<close>

definition pushConversation :: "string \<Rightarrow> string \<Rightarrow> client \<Rightarrow> client" where
  "pushConversation role t s =
     (if trim t = [] then s
      else let c = conversation s @ [(role, trim t)]
           in s\<lparr>conversation := drop (length c - 12) c\<rparr>)"

text \<open>\<^verbatim>\<open>appendLog(message)\<close>: the log keeps its latest 200 lines.\<close>

definition appendLog :: "string \<Rightarrow> client \<Rightarrow> client" where
  "appendLog m s =
     (let l = logsBuffer s @ [m] in s\<lparr>logsBuffer := drop (length l - 200) l\<rparr>)"

subsection \<open>Playback\<close>

text \<open>
  \<^verbatim>\<open>playNext()\<close> has no \<^verbatim>\<open>await\<close>, so it runs to its end when called: with an empty
  queue it clears \<^verbatim>\<open>playing\<close>; otherwise it shifts the head of the queue into the audio
  element and installs the \<^verbatim>\<open>onended\<close> handler.
\<close>

definition playNext :: "client \<Rightarrow> client" where
  "playNext s =
     (case playbackQueue s of
        [] \<Rightarrow> s\<lparr>playing := False\<rparr>
      | blob # q \<Rightarrow>
          s\<lparr>playing := True, playbackQueue := q, currentAudioUrl := Some blob,
            onended := True, loaded := loaded s @ [blob]\<rparr>)"

text \<open>
  The loop of \<^verbatim>\<open>tryPlayAudio\<close>: while the map has the cursor's sequence number and that
  entry is done, push its blob, delete the entry and advance the cursor.
\<close>

function drain :: "client \<Rightarrow> client" where
  "drain s =
     (case map_of (phraseBuffers s) (nextSeqToPlay s) of
        None \<Rightarrow> s
      | Some e \<Rightarrow>
          if \<not> is_done e then s
          else drain (s\<lparr>playbackQueue := playbackQueue s @ [Blob (chunks e)],
                         released := released s @ [nextSeqToPlay s],
                         phraseBuffers := AList.delete (nextSeqToPlay s) (phraseBuffers s),
                         nextSeqToPlay := nextSeqToPlay s + 1\<rparr>))"
  by pat_completeness auto
termination
proof (relation "measure (\<lambda>s. length (phraseBuffers s))")
  show "wf (measure (\<lambda>s. length (phraseBuffers s)))"
    by simp
next
  fix s :: client and e
  assume "map_of (phraseBuffers s) (nextSeqToPlay s) = Some e"
  then have "(nextSeqToPlay s, e) \<in> set (phraseBuffers s)"
    by (rule map_of_SomeD)
  then have "length (filter (\<lambda>(k', _). nextSeqToPlay s \<noteq> k') (phraseBuffers s))
      < length (phraseBuffers s)"
    by (intro length_filter_less [of "(nextSeqToPlay s, e)"]) auto
  then show "(s\<lparr>playbackQueue := playbackQueue s @ [Blob (chunks e)],
                released := released s @ [nextSeqToPlay s],
                phraseBuffers := AList.delete (nextSeqToPlay s) (phraseBuffers s),
                nextSeqToPlay := nextSeqToPlay s + 1\<rparr>, s)
      \<in> measure (\<lambda>s. length (phraseBuffers s))"
    by (simp add: AList.delete_eq)
qed

definition tryPlayAudio :: "client \<Rightarrow> client" where
  "tryPlayAudio s = (let s' = drain s in if \<not> playing s' then playNext s' else s')"

text \<open>
  \<^verbatim>\<open>handleTtsChunk({ seq, audio_b64 })\<close>: \<^verbatim>\<open>base64ToBytes\<close> runs first, so a payload
  that \<^verbatim>\<open>atob\<close> rejects throws before anything is written.
\<close>

definition handleTtsChunk :: "int \<Rightarrow> bytes option \<Rightarrow> client \<Rightarrow> client" where
  "handleTtsChunk seq audio s =
     (case audio of
        None \<Rightarrow> s
      | Some b \<Rightarrow>
          let e = (case map_of (phraseBuffers s) seq of
                     None \<Rightarrow> \<lparr>chunks = [], is_done = False\<rparr>
                   | Some e \<Rightarrow> e)
          in s\<lparr>phraseBuffers := AList.update seq (e\<lparr>chunks := chunks e @ [b]\<rparr>) (phraseBuffers s)\<rparr>)"

definition finalizePhrase :: "int \<Rightarrow> client \<Rightarrow> client" where
  "finalizePhrase seq s =
     (case map_of (phraseBuffers s) seq of
        None \<Rightarrow> s
      | Some e \<Rightarrow>
          tryPlayAudio (s\<lparr>phraseBuffers := AList.update seq (e\<lparr>is_done := True\<rparr>) (phraseBuffers s)\<rparr>))"

definition resetPlayback :: "client \<Rightarrow> client" where
  "resetPlayback s =
     s\<lparr>phraseBuffers := [], playbackQueue := [], nextSeqToPlay := 1, playing := False,
       onended := False, currentAudioUrl := None\<rparr>"

subsection \<open>The message handler\<close>

text \<open>
  \<^verbatim>\<open>handleServerMessage(event)\<close>, one case per message type. A non-final token
  appends its text to \<^verbatim>\<open>pendingAssistant\<close> (JavaScript appends "undefined" for a missing
  text); the final one commits a non-empty \<^verbatim>\<open>pendingAssistant\<close> and clears it.
\<close>

definition token_text :: "string option \<Rightarrow> string" where
  "token_text t = (case t of None \<Rightarrow> ''undefined'' | Some x \<Rightarrow> x)"

fun handleServerMessage :: "server_msg \<Rightarrow> client \<Rightarrow> client" where
  "handleServerMessage (PartialTranscript t) s = s\<lparr>partialPanel := t\<rparr>"
| "handleServerMessage (FinalTranscript t) s = pushConversation ''User'' t (s\<lparr>finalPanel := t\<rparr>)"
| "handleServerMessage (LlmToken t d) s =
     (if \<not> d then
        s\<lparr>pendingAssistant := pendingAssistant s @ token_text t,
          tokensPanel := pendingAssistant s @ token_text t\<rparr>
      else if pendingAssistant s \<noteq> [] then
        (pushConversation ''Assistant'' (pendingAssistant s) s)\<lparr>pendingAssistant := []\<rparr>
      else s)"
| "handleServerMessage (TtsChunk seq audio) s = handleTtsChunk seq audio s"
| "handleServerMessage (TtsPhraseDone seq) s = finalizePhrase seq s"
| "handleServerMessage TtsComplete s = (if \<not> recording s then tryPlayAudio s else s)"
| "handleServerMessage (Info m) s = s"
| "handleServerMessage (Error m) s = s"
| "handleServerMessage (Log m) s = appendLog m s"
| "handleServerMessage Unknown s = s"

subsection \<open>Events\<close>

text \<open>
  What can happen to the client: a message of the server, a click on one of the three
  buttons, the audio element reaching the end of its source, and the socket closing.

  \<^verbatim>\<open>startRecording\<close> awaits the socket and the microphone before it writes anything;
  \<open>ClickRecord\<close> is the click whose awaits succeed, taken as one step. It resets the
  playback state, clears the panels and clears \<^verbatim>\<open>pendingAssistant\<close>. \<^verbatim>\<open>sendCancel\<close>
  does nothing without an open socket and otherwise resets the playback state. The
  \<^verbatim>\<open>onended\<close> handler clears \<^verbatim>\<open>playing\<close> and calls \<^verbatim>\<open>playNext\<close>; \<^verbatim>\<open>resetPlayback\<close>
  removes it.
\<close>

datatype event =
    Server server_msg
  | ClickRecord
  | ClickStop
  | ClickCancel
  | PlayerEnded
  | WsClose

definition startRecording :: "client \<Rightarrow> client" where
  "startRecording s =
     (if recording s then s
      else (resetPlayback (s\<lparr>ws_open := True, recording := True\<rparr>))
             \<lparr>partialPanel := [], finalPanel := [], tokensPanel := [], pendingAssistant := []\<rparr>)"

definition stopRecording :: "client \<Rightarrow> client" where
  "stopRecording s = (if \<not> recording s then s else s\<lparr>recording := False\<rparr>)"

definition sendCancel :: "client \<Rightarrow> client" where
  "sendCancel s = (if \<not> ws_open s then s else resetPlayback s)"

definition player_ended :: "client \<Rightarrow> client" where
  "player_ended s = (if onended s then playNext (s\<lparr>playing := False\<rparr>) else s)"

definition ws_onclose :: "client \<Rightarrow> client" where
  "ws_onclose s = resetPlayback (s\<lparr>recording := False, ws_open := False\<rparr>)"

fun step :: "client \<Rightarrow> event \<Rightarrow> client" where
  "step s (Server m) = handleServerMessage m s"
| "step s ClickRecord = startRecording s"
| "step s ClickStop = stopRecording s"
| "step s ClickCancel = sendCancel s"
| "step s PlayerEnded = player_ended s"
| "step s WsClose = ws_onclose s"

definition run :: "client \<Rightarrow> event list \<Rightarrow> client" where
  "run s evs = foldl step s evs"

text \<open>The state the module starts in.\<close>

definition init :: client where
  "init =
     \<lparr>ws_open = False, recording = False, phraseBuffers = [], playbackQueue = [],
      nextSeqToPlay = 1, playing = False, currentAudioUrl = None, onended = False,
      pendingAssistant = [], conversation = [], logsBuffer = [], partialPanel = [],
      finalPanel = [], tokensPanel = [], released = [], loaded = []\<rparr>"

declare drain.simps [simp del]

subsection \<open>The events of one reply cycle\<close>

text \<open>
  \<open>chunks_of evs k\<close> are the payloads of the chunks of phrase \<open>k\<close> that arrive in
  \<open>evs\<close>, in arrival order, and \<open>done_in evs k\<close> says that the done marker of phrase
  \<open>k\<close> arrives in \<open>evs\<close>.
\<close>

fun chunks_of :: "event list \<Rightarrow> int \<Rightarrow> bytes list" where
  "chunks_of [] k = []"
| "chunks_of (Server (TtsChunk j (Some b)) # es) k =
     (if j = k then b # chunks_of es k else chunks_of es k)"
| "chunks_of (e # es) k = chunks_of es k"

definition done_in :: "event list \<Rightarrow> int \<Rightarrow> bool" where
  "done_in evs k = (Server (TtsPhraseDone k) \<in> set evs)"

text \<open>
  A cycle with phrases \<open>1..N\<close>: every synthesis job sends one chunk or more and then its
  done marker, once; the jobs run concurrently, so the events of different phrases arrive
  in any order, mixed with any other message, with the audio element's ended events and
  with a click on Stop. \<open>admissible N p e\<close> says that \<open>e\<close> may arrive after the events
  \<open>p\<close>. A click on Record or Cancel and the closing of the socket end the cycle.
\<close>

fun admissible :: "nat \<Rightarrow> event list \<Rightarrow> event \<Rightarrow> bool" where
  "admissible N p (Server (TtsChunk k b)) = (1 \<le> k \<and> k \<le> int N \<and> \<not> done_in p k)"
| "admissible N p (Server (TtsPhraseDone k)) =
     (1 \<le> k \<and> k \<le> int N \<and> \<not> done_in p k \<and> chunks_of p k \<noteq> [])"
| "admissible N p (Server m) = True"
| "admissible N p PlayerEnded = True"
| "admissible N p ClickStop = True"
| "admissible N p ClickRecord = False"
| "admissible N p ClickCancel = False"
| "admissible N p WsClose = False"

fun cycle_trace :: "nat \<Rightarrow> event list \<Rightarrow> event list \<Rightarrow> bool" where
  "cycle_trace N p [] = True"
| "cycle_trace N p (e # es) = (admissible N p e \<and> cycle_trace N (p @ [e]) es)"

definition complete :: "nat \<Rightarrow> event list \<Rightarrow> bool" where
  "complete N evs = list_all (done_in evs) [1..int N]"

subsection \<open>The invariant of a cycle\<close>

text \<open>
  After the events \<open>p\<close> of a cycle, with \<open>R\<close> and \<open>L\<close> the history lists at its start:
  the cursor is at least 1; every phrase below the cursor is done; a done phrase has a
  chunk; chunks belong to phrases \<open>1..N\<close>; the map holds exactly the phrases from the
  cursor on that have a chunk, with all their chunks and their done flag; the phrases
  released are those below the cursor, in order; and their blobs are what the audio
  element has loaded followed by what the queue holds. \<open>cinv\<close> adds that the phrase
  at the cursor is not done, which holds whenever the loop of \<^verbatim>\<open>tryPlayAudio\<close> has run.
\<close>

definition jinv :: "nat \<Rightarrow> int list \<Rightarrow> bytes list \<Rightarrow> event list \<Rightarrow> client \<Rightarrow> bool" where
  "jinv N R L p s \<longleftrightarrow>
     1 \<le> nextSeqToPlay s \<and>
     (\<forall>k. 1 \<le> k \<and> k < nextSeqToPlay s \<longrightarrow> done_in p k) \<and>
     (\<forall>k. done_in p k \<longrightarrow> chunks_of p k \<noteq> []) \<and>
     (\<forall>k. chunks_of p k \<noteq> [] \<longrightarrow> 1 \<le> k \<and> k \<le> int N) \<and>
     (\<forall>k. map_of (phraseBuffers s) k =
        (if k < nextSeqToPlay s \<or> chunks_of p k = [] then None
         else Some \<lparr>chunks = chunks_of p k, is_done = done_in p k\<rparr>)) \<and>
     released s = R @ [1..nextSeqToPlay s - 1] \<and>
     loaded s @ playbackQueue s = L @ map (\<lambda>k. Blob (chunks_of p k)) [1..nextSeqToPlay s - 1]"

definition cinv :: "nat \<Rightarrow> int list \<Rightarrow> bytes list \<Rightarrow> event list \<Rightarrow> client \<Rightarrow> bool" where
  "cinv N R L p s \<longleftrightarrow> jinv N R L p s \<and> \<not> done_in p (nextSeqToPlay s)"


subsection \<open>Resets\<close>

text \<open>
  \<open>resets s e\<close> says that the handler of \<open>e\<close> calls \<^verbatim>\<open>resetPlayback\<close> in state \<open>s\<close>:
  a click on Record while not recording, a click on Cancel with the socket open, and the
  closing of the socket. \<open>reset_free s evs\<close> says that no event of \<open>evs\<close>, run from
  \<open>s\<close>, does.
\<close>

fun resets :: "client \<Rightarrow> event \<Rightarrow> bool" where
  "resets s ClickRecord = (\<not> recording s)"
| "resets s ClickCancel = ws_open s"
| "resets s WsClose = True"
| "resets s e = False"

fun reset_free :: "client \<Rightarrow> event list \<Rightarrow> bool" where
  "reset_free s [] = True"
| "reset_free s (e # es) = (\<not> resets s e \<and> reset_free (step s e) es)"

subsection \<open>Events that bring nothing to play or to commit\<close>

text \<open>
  Every event but a chunk with a payload, a final transcript and the terminal token.
\<close>

fun quiet :: "event \<Rightarrow> bool" where
  "quiet (Server (TtsChunk k (Some b))) = False"
| "quiet (Server (FinalTranscript t)) = False"
| "quiet (Server (LlmToken t True)) = False"
| "quiet e = True"

subsection \<open>The token stream\<close>

text \<open>
  \<open>fragments evs\<close> is the text of the non-final tokens of \<open>evs\<close>, in arrival order.
  \<open>streaming e\<close> holds for the events that neither commit to the conversation nor clear
  \<^verbatim>\<open>pendingAssistant\<close>: all but the terminal token, a final transcript and a click on
  Record.
\<close>

fun fragments :: "event list \<Rightarrow> string" where
  "fragments [] = []"
| "fragments (Server (LlmToken t False) # es) = token_text t @ fragments es"
| "fragments (e # es) = fragments es"

fun streaming :: "event \<Rightarrow> bool" where
  "streaming (Server (LlmToken t True)) = False"
| "streaming (Server (FinalTranscript t)) = False"
| "streaming ClickRecord = False"
| "streaming e = True"

subsection \<open>Playback at rest\<close>

text \<open>No phrase buffered, nothing queued and no \<^verbatim>\<open>onended\<close> handler installed.\<close>

definition idle_playback :: "client \<Rightarrow> bool" where
  "idle_playback s \<longleftrightarrow> phraseBuffers s = [] \<and> playbackQueue s = [] \<and> \<not> onended s"


section \<open>The capture worklet (src/client/pcm-worklet.js)\<close>

text \<open>
  \<^verbatim>\<open>PCMWorkletProcessor\<close> resamples each block of microphone samples to the target rate and
  packs the result into frames of \<^verbatim>\<open>chunkSamples\<close> 16-bit samples, which it posts to the
  main thread.

  JavaScript numbers are IEEE 754 binary64 values. A finite one is a real number, so
  samples, ratios and positions are of type \<open>real\<close>, and every operation of the source
  that rounds its result is followed by \<open>rnd\<close>, the rounding to the nearest representable
  number, which the model takes as a parameter: \<open>binary64\<close> below is the rounding of
  the source, and the identity gives exact arithmetic. The input samples are finite. Where the source would compute with \<^verbatim>\<open>NaN\<close> or an infinity the model
  writes out what comes of it.
\<close>

datatype js_error = RangeError

text \<open>
  Storing a number in an \<^verbatim>\<open>Int16Array\<close> truncates it towards zero and keeps the low 16
  bits.
\<close>

definition to_int16 :: "real \<Rightarrow> 16 word" where
  "to_int16 x = word_of_int (if 0 \<le> x then \<lfloor>x\<rfloor> else \<lceil>x\<rceil>)"

text \<open>
  One turn of the loop of \<^verbatim>\<open>resample\<close>, for output index \<open>i\<close>. With a ratio of zero
  the position is \<^verbatim>\<open>NaN\<close> or infinite, and with \<open>i0\<close> outside the block \<^verbatim>\<open>frame[i0]\<close>
  is undefined: the sample is then \<^verbatim>\<open>NaN\<close>, which an \<^verbatim>\<open>Int16Array\<close> stores as 0.
\<close>

definition resample_at :: "(real \<Rightarrow> real) \<Rightarrow> real \<Rightarrow> real list \<Rightarrow> nat \<Rightarrow> 16 word" where
  "resample_at rnd ratio frame i =
     (if ratio = 0 then 0
      else
        let index = rnd (of_nat i / ratio);
            i0 = \<lfloor>index\<rfloor>;
            i1 = min (i0 + 1) (int (length frame) - 1);
            frac = rnd (index - of_int i0)
        in if i0 < 0 \<or> int (length frame) \<le> i0 then 0
           else
             let f0 = frame ! nat i0;
                 f1 = frame ! nat i1;
                 sample = rnd (f0 + rnd (rnd (f1 - f0) * frac))
             in to_int16 (rnd (max (- 1) (min 1 sample) * 32767)))"

text \<open>
  \<^verbatim>\<open>resample(frame)\<close> for target rate \<open>t\<close> and input rate \<open>n\<close>. The variable
  \<^verbatim>\<open>lastSample\<close> of the source is local to the call and is overwritten before it is
  read, so it does not appear. \<^verbatim>\<open>new Int16Array(length)\<close> throws a \<^verbatim>\<open>RangeError\<close> for a
  negative or infinite length and makes an empty array for \<^verbatim>\<open>NaN\<close>; an input rate of
  zero makes the ratio infinite, or \<^verbatim>\<open>NaN\<close> when the target rate is zero too.
\<close>

definition resample :: "(real \<Rightarrow> real) \<Rightarrow> nat \<Rightarrow> nat \<Rightarrow> real list \<Rightarrow> js_error + 16 word list" where
  "resample rnd t n frame =
     (if n = 0 then (if t = 0 \<or> frame = [] then Inr [] else Inl RangeError)
      else
        let ratio = rnd (of_nat t / of_nat n);
            len = \<lfloor>rnd (of_nat (length frame) * ratio)\<rfloor>
        in if len < 0 then Inl RangeError
           else Inr (map (resample_at rnd ratio frame) [0..<nat len]))"

subsection \<open>The framer\<close>

text \<open>
  The fields of the processor that the framer uses, and \<open>posted\<close>, the frames passed to
  \<^verbatim>\<open>port.postMessage\<close>, oldest first.
\<close>

record processor =
  chunkSamples :: nat
  buffer :: "16 word list"
  writePos :: nat
  posted :: "16 word list list"

text \<open>The constructor, for a target rate and a chunk length in milliseconds.\<close>

definition new_processor :: "nat \<Rightarrow> nat \<Rightarrow> processor" where
  "new_processor targetSampleRate chunkMs =
     (let cs = (targetSampleRate * chunkMs) div 1000
      in \<lparr>chunkSamples = cs, buffer = replicate (cs * 4) 0, writePos = 0, posted = []\<rparr>)"

text \<open>
  \<^verbatim>\<open>subarray(b, e)\<close> and \<^verbatim>\<open>slice(b, e)\<close> clamp their bounds to the array;
  \<^verbatim>\<open>target.set(source, offset)\<close> needs \<open>offset + length source \<le> length target\<close> and
  throws a \<^verbatim>\<open>RangeError\<close> otherwise, which the callers below check before they use
  \<open>array_set\<close>. A source that is a view of the target is copied first, so an
  overlapping move is safe.
\<close>

definition subarray :: "nat \<Rightarrow> nat \<Rightarrow> 'a list \<Rightarrow> 'a list" where
  "subarray b e xs = drop b (take e xs)"

definition array_set :: "'a list \<Rightarrow> nat \<Rightarrow> 'a list \<Rightarrow> 'a list" where
  "array_set src off tgt = take off tgt @ src @ drop (off + length src) tgt"

text \<open>
  \<^verbatim>\<open>ensureCapacity(additional)\<close>: a buffer too small for the new samples is replaced by
  one of twice the needed length, holding the samples written so far.
\<close>

definition ensureCapacity :: "nat \<Rightarrow> processor \<Rightarrow> processor" where
  "ensureCapacity additional p =
     (if writePos p + additional \<le> length (buffer p) then p
      else p\<lparr>buffer :=
               array_set (subarray 0 (writePos p) (buffer p)) 0
                 (replicate ((length (buffer p) + additional) * 2) 0)\<rparr>)"

text \<open>
  The loop of \<^verbatim>\<open>enqueue\<close>: while a frame's worth is buffered, slice the frame off, move
  the rest to the head of the buffer and post the frame. With \<^verbatim>\<open>chunkSamples\<close> zero the
  loop never ends; the result \<open>None\<close> stands for that.
\<close>

partial_function (option) emit_frames :: "processor \<Rightarrow> processor option" where
  "emit_frames p =
     (if chunkSamples p \<le> writePos p then
        emit_frames
          (p\<lparr>buffer := array_set (subarray (chunkSamples p) (writePos p) (buffer p)) 0 (buffer p),
             writePos := writePos p - chunkSamples p,
             posted := posted p @ [subarray 0 (chunkSamples p) (buffer p)]\<rparr>)
      else Some p)"

declare emit_frames.simps [code]

text \<open>
  \<^verbatim>\<open>enqueue(samples)\<close>. \<open>None\<close>: the call does not return; \<open>Some (Inl RangeError)\<close>:
  \<^verbatim>\<open>this.buffer.set(samples, this.writePos)\<close> throws.
\<close>

definition enqueue :: "16 word list \<Rightarrow> processor \<Rightarrow> (js_error + processor) option" where
  "enqueue samples p =
     (let p1 = ensureCapacity (length samples) p
      in if length (buffer p1) < writePos p1 + length samples then Some (Inl RangeError)
         else map_option Inr
                (emit_frames (p1\<lparr>buffer := array_set samples (writePos p1) (buffer p1),
                                  writePos := writePos p1 + length samples\<rparr>)))"

text \<open>A sequence of appends, stopping at the first that throws or does not return.\<close>

fun enqueue_all :: "16 word list list \<Rightarrow> processor \<Rightarrow> (js_error + processor) option" where
  "enqueue_all [] p = Some (Inr p)"
| "enqueue_all (b # bs) p =
     (case enqueue b p of
        None \<Rightarrow> None
      | Some (Inl e) \<Rightarrow> Some (Inl e)
      | Some (Inr p') \<Rightarrow> enqueue_all bs p')"

subsection \<open>The rounding of binary64\<close>

text \<open>
  The rounding that JavaScript applies, for magnitudes in the normal range of binary64
  (sample rates, block lengths and positions are far inside it): a number \<open>x\<close> with
  \<open>2\<^sup>e \<le> \<bar>x\<bar> < 2\<^sup>e\<^sup>+\<^sup>1\<close> is rounded to the nearest multiple of \<open>2\<^sup>e\<^sup>-\<^sup>5\<^sup>2\<close>, a tie
  going to the even multiple. \<open>exponent x\<close> is that \<open>e\<close> for \<open>x > 0\<close>, read from the bit
  length of the integer part of \<open>x\<close>, or of \<open>1 / x\<close> when \<open>x < 1\<close>.
\<close>

definition round_even :: "real \<Rightarrow> int" where
  "round_even y =
     (let f = \<lfloor>y\<rfloor>; d = y - of_int f
      in if d < 1 / 2 then f else if 1 / 2 < d then f + 1 else if even f then f else f + 1)"

definition pow2 :: "int \<Rightarrow> real" where
  "pow2 k = (if 0 \<le> k then 2 ^ nat k else 1 / 2 ^ nat (- k))"

definition exponent :: "real \<Rightarrow> int" where
  "exponent x = (if 1 \<le> x then bitlen \<lfloor>x\<rfloor> - 1 else - bitlen (\<lceil>1 / x\<rceil> - 1))"

definition binary64 :: "real \<Rightarrow> real" where
  "binary64 x =
     (if x = 0 then 0
      else let u = pow2 (exponent \<bar>x\<bar> - 52) in u * of_int (round_even (x / u)))"

text \<open>
  What two consecutive calls of \<^verbatim>\<open>resample\<close> produce for the blocks \<open>A\<close> and \<open>B\<close>: the
  output of the first followed by the output of the second, unless one of them throws.
\<close>

definition resample_blocks ::
  "(real \<Rightarrow> real) \<Rightarrow> nat \<Rightarrow> nat \<Rightarrow> real list \<Rightarrow> real list \<Rightarrow> js_error + 16 word list" where
  "resample_blocks rnd t n A B =
     (case resample rnd t n A of
        Inl e \<Rightarrow> Inl e
      | Inr a \<Rightarrow> (case resample rnd t n B of Inl e \<Rightarrow> Inl e | Inr b \<Rightarrow> Inr (a @ b)))"

text \<open>The samples a processor has accepted and not lost: the frames posted, then the
  samples waiting in the buffer.\<close>

definition stream :: "processor \<Rightarrow> 16 word list" where
  "stream p = concat (posted p) @ take (writePos p) (buffer p)"


section \<open>Basic facts about the handlers\<close>

lemma pushConversation_fields:
  "nextSeqToPlay (pushConversation r t s) = nextSeqToPlay s"
  "phraseBuffers (pushConversation r t s) = phraseBuffers s"
  "released (pushConversation r t s) = released s"
  "loaded (pushConversation r t s) = loaded s"
  "playbackQueue (pushConversation r t s) = playbackQueue s"
  by (simp_all add: pushConversation_def Let_def)

lemma run_snoc: "run s (p @ [e]) = step (run s p) e"
  by (simp add: run_def)

lemma run_Cons: "run s (e # es) = run (step s e) es"
  by (simp add: run_def)

lemma playNext_fields:
  "nextSeqToPlay (playNext s) = nextSeqToPlay s"
  "released (playNext s) = released s"
  "phraseBuffers (playNext s) = phraseBuffers s"
  "conversation (playNext s) = conversation s"
  "pendingAssistant (playNext s) = pendingAssistant s"
  by (simp_all add: playNext_def split: list.splits)

lemma drain_memory:
  "conversation (drain s) = conversation s \<and> pendingAssistant (drain s) = pendingAssistant s"
proof (induction s rule: drain.induct)
  case (1 s)
  show ?case
  proof (cases "map_of (phraseBuffers s) (nextSeqToPlay s)")
    case None
    then show ?thesis by (subst (1 2) drain.simps) simp
  next
    case (Some e)
    with "1.IH" [of e] show ?thesis
      by (subst (1 2) drain.simps) (cases "is_done e"; simp)
  qed
qed

lemma drain_empty: "phraseBuffers s = [] \<Longrightarrow> drain s = s"
  by (subst drain.simps) simp


section \<open>Partial transcripts\<close>

text \<open>
  Claim C9. Each \<^verbatim>\<open>partial_transcript\<close> replaces the displayed partial text: after the
  message with text \<open>t\<close> is handled the partial panel shows \<open>t\<close>, whatever it showed
  before and whatever else the state holds.
\<close>

theorem partial_transcript_replaces:
  "partialPanel (handleServerMessage (PartialTranscript t) s) = t"
  by simp

section \<open>Playback order\<close>

lemma chunks_of_append: "chunks_of (p @ q) k = chunks_of p k @ chunks_of q k"
  by (induction p k rule: chunks_of.induct) auto

lemma chunks_of_snoc:
  "chunks_of (p @ [e]) k =
     chunks_of p k @ (case e of Server (TtsChunk j (Some b)) \<Rightarrow> if j = k then [b] else [] | _ \<Rightarrow> [])"
  by (simp add: chunks_of_append split: event.splits server_msg.splits option.splits)


lemma cycle_trace_snoc:
  "cycle_trace N q (p @ [e]) = (cycle_trace N q p \<and> admissible N (q @ p) e)"
  by (induction p arbitrary: q) auto

lemma drain_cinv: "jinv N R L p s \<Longrightarrow> cinv N R L p (drain s)"
proof (induction s rule: drain.induct)
  case (1 s)
  let ?c = "nextSeqToPlay s"
  show ?case
  proof (cases "map_of (phraseBuffers s) ?c")
    case None
    with "1.prems" have "\<not> done_in p ?c"
      by (auto simp: jinv_def split: if_splits)
    with None "1.prems" show ?thesis
      by (subst drain.simps) (simp add: cinv_def)
  next
    case (Some e)
    with "1.prems" have e: "e = \<lparr>chunks = chunks_of p ?c, is_done = done_in p ?c\<rparr>"
      by (auto simp: jinv_def split: if_splits)
    show ?thesis
    proof (cases "is_done e")
      case False
      with Some e "1.prems" show ?thesis
        by (subst drain.simps) (simp add: cinv_def)
    next
      case True
      let ?s' = "s\<lparr>playbackQueue := playbackQueue s @ [Blob (chunks e)],
                    released := released s @ [?c],
                    phraseBuffers := AList.delete ?c (phraseBuffers s),
                    nextSeqToPlay := ?c + 1\<rparr>"
      have d: "done_in p ?c" using True e by simp
      have up: "[1..?c] = [1..?c - 1] @ [?c]"
        using "1.prems" by (simp add: jinv_def upto_rec2)
      have B: "done_in p k" if "1 \<le> k" "k \<le> ?c" for k
      proof -
        from that consider "k < ?c" | "k = ?c" by linarith
        then show ?thesis using d "1.prems" that by cases (auto simp: jinv_def)
      qed
      have "jinv N R L p ?s'"
        using "1.prems" e up B
        unfolding jinv_def
        by (auto simp: delete_conv')
      then have "cinv N R L p (drain ?s')"
        using Some True by (intro "1.IH") auto
      then show ?thesis
        using Some True by (subst drain.simps) simp
    qed
  qed
qed


lemma done_in_snoc: "done_in (p @ [e]) k = (done_in p k \<or> e = Server (TtsPhraseDone k))"
  by (auto simp: done_in_def)

lemma playNext_cinv: "cinv N R L p s \<Longrightarrow> cinv N R L p (playNext s)"
  by (auto simp: cinv_def jinv_def playNext_def split: list.splits)

lemma tryPlayAudio_cinv: "jinv N R L p s \<Longrightarrow> cinv N R L p (tryPlayAudio s)"
  by (simp add: tryPlayAudio_def Let_def drain_cinv playNext_cinv)

lemma cinv_jinv: "cinv N R L p s \<Longrightarrow> jinv N R L p s"
  by (simp add: cinv_def)

text \<open>The invariant reads five fields only.\<close>

lemma cinv_cong:
  "cinv N R L p s \<Longrightarrow> nextSeqToPlay s' = nextSeqToPlay s \<Longrightarrow> phraseBuffers s' = phraseBuffers s \<Longrightarrow>
   released s' = released s \<Longrightarrow> loaded s' @ playbackQueue s' = loaded s @ playbackQueue s \<Longrightarrow>
   cinv N R L p s'"
  by (simp add: cinv_def jinv_def)

lemma cinv_other:
  assumes "cinv N R L p s" "\<And>k. chunks_of (p @ [e]) k = chunks_of p k"
    "\<And>k. done_in (p @ [e]) k = done_in p k"
  shows "cinv N R L (p @ [e]) s"
  using assms by (simp add: cinv_def jinv_def)

lemma jinvI:
  assumes "1 \<le> nextSeqToPlay s"
    and "\<And>k. 1 \<le> k \<Longrightarrow> k < nextSeqToPlay s \<Longrightarrow> done_in p k"
    and "\<And>k. done_in p k \<Longrightarrow> chunks_of p k \<noteq> []"
    and "\<And>k. chunks_of p k \<noteq> [] \<Longrightarrow> 1 \<le> k \<and> k \<le> int N"
    and "\<And>k. map_of (phraseBuffers s) k =
        (if k < nextSeqToPlay s \<or> chunks_of p k = [] then None
         else Some \<lparr>chunks = chunks_of p k, is_done = done_in p k\<rparr>)"
    and "released s = R @ [1..nextSeqToPlay s - 1]"
    and "loaded s @ playbackQueue s = L @ map (\<lambda>k. Blob (chunks_of p k)) [1..nextSeqToPlay s - 1]"
  shows "jinv N R L p s"
  unfolding jinv_def using assms by blast

lemma jinvD:
  assumes "jinv N R L p s"
  shows "1 \<le> nextSeqToPlay s"
    and "\<And>k. 1 \<le> k \<Longrightarrow> k < nextSeqToPlay s \<Longrightarrow> done_in p k"
    and "\<And>k. done_in p k \<Longrightarrow> chunks_of p k \<noteq> []"
    and "\<And>k. chunks_of p k \<noteq> [] \<Longrightarrow> 1 \<le> k \<and> k \<le> int N"
    and "\<And>k. map_of (phraseBuffers s) k =
        (if k < nextSeqToPlay s \<or> chunks_of p k = [] then None
         else Some \<lparr>chunks = chunks_of p k, is_done = done_in p k\<rparr>)"
    and "released s = R @ [1..nextSeqToPlay s - 1]"
    and "loaded s @ playbackQueue s = L @ map (\<lambda>k. Blob (chunks_of p k)) [1..nextSeqToPlay s - 1]"
  using assms unfolding jinv_def by blast+

lemma chunk_cinv:
  assumes inv: "cinv N R L p s" and adm: "admissible N p (Server (TtsChunk k a))"
  shows "cinv N R L (p @ [Server (TtsChunk k a)]) (handleTtsChunk k a s)"
proof (cases a)
  case None
  have "cinv N R L (p @ [Server (TtsChunk k None)]) s"
    using inv by (rule cinv_other) (simp_all add: chunks_of_snoc done_in_snoc)
  then show ?thesis
    by (simp add: None handleTtsChunk_def)
next
  case (Some b)
  let ?c = "nextSeqToPlay s"
  let ?p = "p @ [Server (TtsChunk k (Some b))]"
  from inv have j: "jinv N R L p s" and C: "\<not> done_in p ?c"
    by (simp_all add: cinv_def)
  from adm have k: "1 \<le> k" "k \<le> int N" "\<not> done_in p k" by simp_all
  have ck: "?c \<le> k"
    using jinvD(2) [OF j, of k] k by linarith
  have ch: "chunks_of ?p j = chunks_of p j @ (if k = j then [b] else [])" for j
    by (simp add: chunks_of_snoc)
  have dn: "done_in ?p j = done_in p j" for j
    by (simp add: done_in_snoc)
  have old: "(case map_of (phraseBuffers s) k of None \<Rightarrow> \<lparr>chunks = [], is_done = False\<rparr> | Some e \<Rightarrow> e)
      = \<lparr>chunks = chunks_of p k, is_done = False\<rparr>"
    using ck k by (simp add: jinvD(5) [OF j])
  have blobs: "map (\<lambda>j. Blob (chunks_of ?p j)) [1..?c - 1] = map (\<lambda>j. Blob (chunks_of p j)) [1..?c - 1]"
    using ck by (intro map_cong) (auto simp: ch)
  let ?s' = "s\<lparr>phraseBuffers :=
      AList.update k \<lparr>chunks = chunks_of p k @ [b], is_done = False\<rparr> (phraseBuffers s)\<rparr>"
  have s': "handleTtsChunk k (Some b) s = ?s'"
    by (simp add: handleTtsChunk_def old)
  have "jinv N R L ?p ?s'"
  proof (rule jinvI)
    show "1 \<le> nextSeqToPlay ?s'"
      using jinvD(1) [OF j] by simp
    show "done_in ?p i" if "1 \<le> i" "i < nextSeqToPlay ?s'" for i
      using jinvD(2) [OF j, of i] that by (simp add: dn)
    show "chunks_of ?p i \<noteq> []" if "done_in ?p i" for i
      using jinvD(3) [OF j, of i] that by (simp add: dn ch)
    show "1 \<le> i \<and> i \<le> int N" if "chunks_of ?p i \<noteq> []" for i
      using jinvD(4) [OF j, of i] that k by (cases "i = k") (simp_all add: ch)
    show "map_of (phraseBuffers ?s') i =
        (if i < nextSeqToPlay ?s' \<or> chunks_of ?p i = [] then None
         else Some \<lparr>chunks = chunks_of ?p i, is_done = done_in ?p i\<rparr>)" for i
      using ck k by (cases "i = k") (simp_all add: update_conv' ch dn jinvD(5) [OF j])
    show "released ?s' = R @ [1..nextSeqToPlay ?s' - 1]"
      using jinvD(6) [OF j] by simp
    show "loaded ?s' @ playbackQueue ?s' =
        L @ map (\<lambda>k. Blob (chunks_of ?p k)) [1..nextSeqToPlay ?s' - 1]"
      using jinvD(7) [OF j] blobs by simp
  qed
  then have "cinv N R L ?p ?s'"
    using C by (simp add: cinv_def dn)
  then show ?thesis
    by (simp only: s' Some)
qed

lemma done_cinv:
  assumes inv: "cinv N R L p s" and adm: "admissible N p (Server (TtsPhraseDone k))"
  shows "cinv N R L (p @ [Server (TtsPhraseDone k)]) (finalizePhrase k s)"
proof -
  let ?c = "nextSeqToPlay s"
  let ?p = "p @ [Server (TtsPhraseDone k)]"
  from inv have j: "jinv N R L p s"
    by (simp add: cinv_def)
  from adm have k: "1 \<le> k" "k \<le> int N" "\<not> done_in p k" "chunks_of p k \<noteq> []" by simp_all
  have ck: "?c \<le> k"
    using jinvD(2) [OF j, of k] k by linarith
  have ch: "chunks_of ?p i = chunks_of p i" for i
    by (simp add: chunks_of_snoc)
  have dn: "done_in ?p i = (done_in p i \<or> i = k)" for i
    by (auto simp: done_in_snoc)
  have old: "map_of (phraseBuffers s) k = Some \<lparr>chunks = chunks_of p k, is_done = False\<rparr>"
    using ck k by (simp add: jinvD(5) [OF j])
  let ?s1 = "s\<lparr>phraseBuffers :=
      AList.update k (\<lparr>chunks = chunks_of p k, is_done = False\<rparr>\<lparr>is_done := True\<rparr>) (phraseBuffers s)\<rparr>"
  have "jinv N R L ?p ?s1"
  proof (rule jinvI)
    show "1 \<le> nextSeqToPlay ?s1"
      using jinvD(1) [OF j] by simp
    show "done_in ?p i" if "1 \<le> i" "i < nextSeqToPlay ?s1" for i
      using jinvD(2) [OF j, of i] that by (simp add: dn)
    show "chunks_of ?p i \<noteq> []" if "done_in ?p i" for i
      using jinvD(3) [OF j, of i] that k by (auto simp: dn ch)
    show "1 \<le> i \<and> i \<le> int N" if "chunks_of ?p i \<noteq> []" for i
      using jinvD(4) [OF j, of i] that by (simp add: ch)
    show "map_of (phraseBuffers ?s1) i =
        (if i < nextSeqToPlay ?s1 \<or> chunks_of ?p i = [] then None
         else Some \<lparr>chunks = chunks_of ?p i, is_done = done_in ?p i\<rparr>)" for i
      using ck k by (cases "i = k") (simp_all add: update_conv' ch dn jinvD(5) [OF j])
    show "released ?s1 = R @ [1..nextSeqToPlay ?s1 - 1]"
      using jinvD(6) [OF j] by simp
    show "loaded ?s1 @ playbackQueue ?s1 =
        L @ map (\<lambda>k. Blob (chunks_of ?p k)) [1..nextSeqToPlay ?s1 - 1]"
      using jinvD(7) [OF j] by (simp add: ch)
  qed
  then have "cinv N R L ?p (tryPlayAudio ?s1)"
    by (rule tryPlayAudio_cinv)
  then show ?thesis
    by (simp add: finalizePhrase_def old)
qed

lemma cinv_frame:
  assumes "cinv N R L p s"
    and "\<And>k. chunks_of (p @ [e]) k = chunks_of p k"
    and "\<And>k. done_in (p @ [e]) k = done_in p k"
    and "nextSeqToPlay s' = nextSeqToPlay s" "phraseBuffers s' = phraseBuffers s"
    and "released s' = released s"
    and "loaded s' @ playbackQueue s' = loaded s @ playbackQueue s"
  shows "cinv N R L (p @ [e]) s'"
  by (rule cinv_cong [OF cinv_other, of N R L p s e]) (fact assms)+

lemma step_cinv:
  assumes inv: "cinv N R L p s" and adm: "admissible N p e"
  shows "cinv N R L (p @ [e]) (step s e)"
proof (cases e)
  case (Server m)
  show ?thesis
  proof (cases m)
    case (TtsChunk k a)
    with Server inv adm show ?thesis by (simp add: chunk_cinv)
  next
    case (TtsPhraseDone k)
    with Server inv adm show ?thesis by (simp add: done_cinv)
  next
    case TtsComplete
    have "cinv N R L (p @ [e]) s"
      by (rule cinv_frame [OF inv]) (simp_all add: Server TtsComplete chunks_of_snoc done_in_snoc)
    then show ?thesis
      by (simp add: Server TtsComplete tryPlayAudio_cinv cinv_jinv)
  next
    case (PartialTranscript t)
    show ?thesis
      by (rule cinv_frame [OF inv]) (simp_all add: Server PartialTranscript chunks_of_snoc done_in_snoc)
  next
    case (FinalTranscript t)
    show ?thesis
      by (rule cinv_frame [OF inv])
         (simp_all add: Server FinalTranscript chunks_of_snoc done_in_snoc pushConversation_fields)
  next
    case (LlmToken t d)
    show ?thesis
      by (rule cinv_frame [OF inv])
         (simp_all add: Server LlmToken chunks_of_snoc done_in_snoc pushConversation_fields)
  next
    case (Info t)
    show ?thesis
      by (rule cinv_frame [OF inv]) (simp_all add: Server Info chunks_of_snoc done_in_snoc)
  next
    case (Error t)
    show ?thesis
      by (rule cinv_frame [OF inv]) (simp_all add: Server Error chunks_of_snoc done_in_snoc)
  next
    case (Log t)
    show ?thesis
      by (rule cinv_frame [OF inv])
         (simp_all add: Server Log chunks_of_snoc done_in_snoc appendLog_def Let_def)
  next
    case Unknown
    show ?thesis
      by (rule cinv_frame [OF inv]) (simp_all add: Server Unknown chunks_of_snoc done_in_snoc)
  qed
next
  case PlayerEnded
  have "cinv N R L (p @ [e]) (s\<lparr>playing := False\<rparr>)"
    by (rule cinv_frame [OF inv]) (simp_all add: PlayerEnded chunks_of_snoc done_in_snoc)
  moreover have "cinv N R L (p @ [e]) s"
    by (rule cinv_frame [OF inv]) (simp_all add: PlayerEnded chunks_of_snoc done_in_snoc)
  ultimately show ?thesis
    by (simp add: PlayerEnded player_ended_def playNext_cinv)
next
  case ClickStop
  show ?thesis
    by (rule cinv_frame [OF inv])
       (simp_all add: ClickStop chunks_of_snoc done_in_snoc stopRecording_def)
qed (use adm in simp_all)

lemma cinv_reset: "cinv N (released s0) (loaded s0) [] (resetPlayback s0)"
  by (simp add: cinv_def jinv_def resetPlayback_def done_in_def)

lemma run_cinv:
  "cycle_trace N [] evs \<Longrightarrow> cinv N (released s0) (loaded s0) evs (run (resetPlayback s0) evs)"
proof (induction evs rule: rev_induct)
  case Nil
  show ?case by (simp add: run_def cinv_reset)
next
  case (snoc e evs)
  then show ?case
    by (simp add: cycle_trace_snoc run_snoc step_cinv)
qed


lemma cycle_trace_append:
  "cycle_trace N q (p @ r) = (cycle_trace N q p \<and> cycle_trace N (q @ p) r)"
  by (induction p arbitrary: q) auto

lemma complete_iff: "complete N evs \<longleftrightarrow> (\<forall>k. 1 \<le> k \<and> k \<le> int N \<longrightarrow> done_in evs k)"
  by (auto simp: complete_def list_all_iff)

text \<open>
  Claim C1. Take any cycle with phrases \<open>1..N\<close> and any order of arrival of their chunks
  and done markers (each phrase sends a chunk or more, then its done marker), starting
  from the reset playback state. At every point of the cycle the phrases moved to the
  playback queue are exactly \<open>1, 2, ...\<close> up to the cursor, in that order and with all
  their chunks; a phrase at or above the cursor whose done marker has arrived is held in
  the map with its chunks; and once every done marker has arrived the phrases released
  are exactly \<open>1, ..., N\<close>. A prefix of a cycle's events is again such a list
  (\<open>cycle_trace_append\<close>), so the statement covers every intermediate state.
\<close>

theorem playback_in_phrase_order:
  assumes "cycle_trace N [] evs"
  shows "let s = run (resetPlayback s0) evs; c = nextSeqToPlay s in
     released s = released s0 @ [1..c - 1] \<and>
     loaded s @ playbackQueue s = loaded s0 @ map (\<lambda>k. Blob (chunks_of evs k)) [1..c - 1] \<and>
     (\<forall>k. c \<le> k \<and> done_in evs k \<longrightarrow>
        map_of (phraseBuffers s) k = Some \<lparr>chunks = chunks_of evs k, is_done = True\<rparr>) \<and>
     (complete N evs \<longrightarrow> c = int N + 1 \<and> released s = released s0 @ [1..int N])"
proof -
  let ?s = "run (resetPlayback s0) evs"
  let ?c = "nextSeqToPlay ?s"
  have inv: "cinv N (released s0) (loaded s0) evs ?s"
    using assms by (rule run_cinv)
  then have j: "jinv N (released s0) (loaded s0) evs ?s" and C: "\<not> done_in evs ?c"
    by (simp_all add: cinv_def)
  have held: "map_of (phraseBuffers ?s) k = Some \<lparr>chunks = chunks_of evs k, is_done = True\<rparr>"
    if "?c \<le> k" "done_in evs k" for k
    using that jinvD(3) [OF j, of k] by (simp add: jinvD(5) [OF j])
  have fin: "?c = int N + 1" if "complete N evs"
  proof -
    have "\<not> ?c \<le> int N"
      using that C jinvD(1) [OF j] by (auto simp: complete_iff)
    moreover have "\<not> int N + 1 < ?c"
    proof
      assume "int N + 1 < ?c"
      then have "done_in evs (int N + 1)"
        by (intro jinvD(2) [OF j]) simp_all
      then show False
        using jinvD(3) [OF j, of "int N + 1"] jinvD(4) [OF j, of "int N + 1"] by simp
    qed
    ultimately show ?thesis by linarith
  qed
  show ?thesis
    using jinvD(6) [OF j] jinvD(7) [OF j] held fin by (simp add: Let_def)
qed

theorem playback_in_phrase_order_witness:
  "released (run (resetPlayback init)
     [Server (TtsChunk 2 (Some [3])), Server (TtsPhraseDone 2), Server (TtsChunk 1 (Some [1])),
      Server (TtsChunk 1 (Some [2])), Server (TtsPhraseDone 1)]) = [1, 2] \<and>
   nextSeqToPlay (run (resetPlayback init)
     [Server (TtsChunk 2 (Some [3])), Server (TtsPhraseDone 2), Server (TtsChunk 1 (Some [1])),
      Server (TtsChunk 1 (Some [2])), Server (TtsPhraseDone 1)]) = 3"
  using playback_in_phrase_order [of 2
     "[Server (TtsChunk 2 (Some [3])), Server (TtsPhraseDone 2), Server (TtsChunk 1 (Some [1])),
      Server (TtsChunk 1 (Some [2])), Server (TtsPhraseDone 1)]" init]
  by (simp add: Let_def complete_def done_in_def init_def upto.simps)

section \<open>A phrase without audio\<close>

text \<open>
  Claim C2 does not hold of the code. \<^verbatim>\<open>finalizePhrase\<close> returns at once when the map
  has no entry for the sequence number, and only \<^verbatim>\<open>handleTtsChunk\<close> creates entries. So
  the done marker of a phrase that sent no chunk is lost: here phrase 1 fails, phrase 2
  arrives whole and the reply completes, and the cursor still waits for phrase 1 with
  phrase 2 held in the map and nothing released.
\<close>

theorem failed_phrase_blocks_cursor:
  "let s = run (resetPlayback init)
        [Server (TtsPhraseDone 1), Server (TtsChunk 2 (Some [7])), Server (TtsPhraseDone 2),
         Server TtsComplete]
   in nextSeqToPlay s = 1 \<and> released s = [] \<and> loaded s = [] \<and> playbackQueue s = [] \<and>
      phraseBuffers s = [(2, \<lparr>chunks = [[7]], is_done = True\<rparr>)]"
  by (simp add: run_def init_def resetPlayback_def finalizePhrase_def handleTtsChunk_def
      tryPlayAudio_def playNext_def drain.simps)

section \<open>The cursor between resets\<close>



lemma upto_join: "a \<le> b \<Longrightarrow> b \<le> c \<Longrightarrow> [a..b - 1] @ [b..c - 1] = [a..c - 1]" for a b c :: int
proof -
  assume ab: "a \<le> b" and bc: "b \<le> c"
  show ?thesis
  proof (cases "a = b")
    case True
    then show ?thesis by simp
  next
    case False
    with ab bc have "[a..c - 1] = [a..b - 1] @ [(b - 1) + 1..c - 1]"
      by (intro upto_split2) simp_all
    then show ?thesis by simp
  qed
qed

lemma drain_absent:
  "map_of (phraseBuffers s) k = None \<Longrightarrow> map_of (phraseBuffers (drain s)) k = None"
proof (induction s rule: drain.induct)
  case (1 s)
  show ?case
  proof (cases "map_of (phraseBuffers s) (nextSeqToPlay s)")
    case None
    with "1.prems" show ?thesis by (subst drain.simps) simp
  next
    case (Some e)
    show ?thesis
    proof (cases "is_done e")
      case False
      with Some "1.prems" show ?thesis by (subst drain.simps) simp
    next
      case True
      with Some "1.prems" "1.IH" [of e] show ?thesis
        by (subst drain.simps) (simp add: delete_conv')
    qed
  qed
qed

lemma drain_released:
  "nextSeqToPlay s \<le> nextSeqToPlay (drain s) \<and>
   released (drain s) = released s @ [nextSeqToPlay s..nextSeqToPlay (drain s) - 1] \<and>
   (\<forall>k. nextSeqToPlay s \<le> k \<and> k < nextSeqToPlay (drain s) \<longrightarrow>
      map_of (phraseBuffers (drain s)) k = None)"
proof (induction s rule: drain.induct)
  case (1 s)
  let ?c = "nextSeqToPlay s"
  show ?case
  proof (cases "map_of (phraseBuffers s) ?c")
    case None
    then have "drain s = s" by (subst drain.simps) simp
    then show ?thesis by auto
  next
    case (Some e)
    show ?thesis
    proof (cases "is_done e")
      case False
      with Some have "drain s = s" by (subst drain.simps) simp
      then show ?thesis by auto
    next
      case True
      let ?s' = "s\<lparr>playbackQueue := playbackQueue s @ [Blob (chunks e)],
                    released := released s @ [?c],
                    phraseBuffers := AList.delete ?c (phraseBuffers s),
                    nextSeqToPlay := ?c + 1\<rparr>"
      have d: "drain s = drain ?s'"
        using Some True by (subst drain.simps) simp
      have IH: "?c + 1 \<le> nextSeqToPlay (drain ?s')"
        "released (drain ?s') = (released s @ [?c]) @ [?c + 1..nextSeqToPlay (drain ?s') - 1]"
        "\<And>k. ?c + 1 \<le> k \<Longrightarrow> k < nextSeqToPlay (drain ?s') \<Longrightarrow>
           map_of (phraseBuffers (drain ?s')) k = None"
        using "1.IH" [OF Some] True by simp_all
      have gone: "map_of (phraseBuffers (drain ?s')) ?c = None"
        by (rule drain_absent) (simp add: delete_conv')
      have up: "[?c..nextSeqToPlay (drain ?s') - 1] = ?c # [?c + 1..nextSeqToPlay (drain ?s') - 1]"
        using IH(1) by (intro upto_rec1) simp
      have "map_of (phraseBuffers (drain ?s')) k = None"
        if "?c \<le> k" "k < nextSeqToPlay (drain ?s')" for k
      proof (cases "k = ?c")
        case True
        then show ?thesis using gone by simp
      next
        case False
        with that show ?thesis by (intro IH(3)) simp_all
      qed
      then show ?thesis
        unfolding d using IH(1) IH(2) up by simp
    qed
  qed
qed

lemma tryPlayAudio_released:
  "nextSeqToPlay s \<le> nextSeqToPlay (tryPlayAudio s) \<and>
   released (tryPlayAudio s) = released s @ [nextSeqToPlay s..nextSeqToPlay (tryPlayAudio s) - 1] \<and>
   (\<forall>k. nextSeqToPlay s \<le> k \<and> k < nextSeqToPlay (tryPlayAudio s) \<longrightarrow>
      map_of (phraseBuffers (tryPlayAudio s)) k = None)"
  using drain_released [of s] by (simp add: tryPlayAudio_def Let_def playNext_fields)

lemma finalizePhrase_released:
  "nextSeqToPlay s \<le> nextSeqToPlay (finalizePhrase k s) \<and>
   released (finalizePhrase k s) =
     released s @ [nextSeqToPlay s..nextSeqToPlay (finalizePhrase k s) - 1]"
proof (cases "map_of (phraseBuffers s) k")
  case None
  then show ?thesis by (simp add: finalizePhrase_def)
next
  case (Some e)
  then show ?thesis
    using tryPlayAudio_released
      [of "s\<lparr>phraseBuffers := AList.update k (e\<lparr>is_done := True\<rparr>) (phraseBuffers s)\<rparr>"]
    by (simp add: finalizePhrase_def)
qed


lemma step_released:
  assumes "\<not> resets s e"
  shows "nextSeqToPlay s \<le> nextSeqToPlay (step s e) \<and>
     released (step s e) = released s @ [nextSeqToPlay s..nextSeqToPlay (step s e) - 1]"
proof (cases e)
  case (Server m)
  show ?thesis
  proof (cases m)
    case (TtsPhraseDone k)
    with Server show ?thesis by (simp add: finalizePhrase_released)
  next
    case TtsComplete
    with Server show ?thesis using tryPlayAudio_released [of s] by simp
  qed (simp_all add: Server handleTtsChunk_def pushConversation_def appendLog_def Let_def
         split: option.splits)
next
  case PlayerEnded
  then show ?thesis by (simp add: player_ended_def playNext_fields)
next
  case ClickStop
  then show ?thesis by (simp add: stopRecording_def)
next
  case ClickRecord
  with assms show ?thesis by (simp add: startRecording_def)
next
  case ClickCancel
  with assms show ?thesis by (simp add: sendCancel_def)
next
  case WsClose
  with assms show ?thesis by simp
qed

lemma run_released:
  "reset_free s evs \<Longrightarrow>
   nextSeqToPlay s \<le> nextSeqToPlay (run s evs) \<and>
   released (run s evs) = released s @ [nextSeqToPlay s..nextSeqToPlay (run s evs) - 1]"
proof (induction evs arbitrary: s)
  case Nil
  show ?case by (simp add: run_def)
next
  case (Cons e es)
  then have st: "nextSeqToPlay s \<le> nextSeqToPlay (step s e)"
    "released (step s e) = released s @ [nextSeqToPlay s..nextSeqToPlay (step s e) - 1]"
    using step_released [of s e] by simp_all
  from Cons have rest: "nextSeqToPlay (step s e) \<le> nextSeqToPlay (run (step s e) es)"
    "released (run (step s e) es) =
       released (step s e) @ [nextSeqToPlay (step s e)..nextSeqToPlay (run (step s e) es) - 1]"
    by simp_all
  show ?case
    using st rest by (simp add: run_Cons upto_join)
qed

text \<open>
  Claim C10. Between resets the cursor never decreases, the sequence numbers released
  during a run are the consecutive numbers from the cursor before the run to the cursor
  after it, each once, and the loop of \<^verbatim>\<open>tryPlayAudio\<close> leaves no entry in the map for
  a phrase it has released.
\<close>

theorem cursor_monotone_released_once:
  "(reset_free s evs \<longrightarrow>
      nextSeqToPlay s \<le> nextSeqToPlay (run s evs) \<and>
      released (run s evs) = released s @ [nextSeqToPlay s..nextSeqToPlay (run s evs) - 1] \<and>
      distinct (drop (length (released s)) (released (run s evs)))) \<and>
   released (tryPlayAudio s) = released s @ [nextSeqToPlay s..nextSeqToPlay (tryPlayAudio s) - 1] \<and>
   (\<forall>k. nextSeqToPlay s \<le> k \<and> k < nextSeqToPlay (tryPlayAudio s) \<longrightarrow>
      map_of (phraseBuffers (tryPlayAudio s)) k = None)"
proof -
  have "distinct (drop (length (released s)) (released (run s evs)))" if "reset_free s evs"
    using run_released [OF that] by simp
  then show ?thesis
    using run_released [of s evs] tryPlayAudio_released [of s] by blast
qed

theorem cursor_monotone_released_once_witness:
  "nextSeqToPlay (run init
     [Server (TtsChunk 2 (Some [3])), Server (TtsChunk 1 (Some [1])), Server (TtsPhraseDone 1),
      Server (TtsChunk 1 (Some [9])), Server (TtsPhraseDone 1), Server (TtsPhraseDone 2)]) = 3 \<and>
   released (run init
     [Server (TtsChunk 2 (Some [3])), Server (TtsChunk 1 (Some [1])), Server (TtsPhraseDone 1),
      Server (TtsChunk 1 (Some [9])), Server (TtsPhraseDone 1), Server (TtsPhraseDone 2)]) = [1, 2]"
proof -
  let ?evs = "[Server (TtsChunk 2 (Some [3])), Server (TtsChunk 1 (Some [1])), Server (TtsPhraseDone 1),
      Server (TtsChunk 1 (Some [9])), Server (TtsPhraseDone 1), Server (TtsPhraseDone 2)]"
  have c: "nextSeqToPlay (run init ?evs) = 3"
    by (simp add: run_def init_def finalizePhrase_def handleTtsChunk_def tryPlayAudio_def
        playNext_def drain.simps)
  have "reset_free init ?evs"
    by simp
  with cursor_monotone_released_once [of init ?evs]
  have "released (run init ?evs) = released init @ [nextSeqToPlay init..nextSeqToPlay (run init ?evs) - 1]"
    by blast
  then show ?thesis
    by (simp add: c) (simp add: init_def upto.simps)
qed


section \<open>Cancellation\<close>


lemma tryPlayAudio_idle:
  "idle_playback s \<Longrightarrow>
   idle_playback (tryPlayAudio s) \<and> loaded (tryPlayAudio s) = loaded s \<and>
   conversation (tryPlayAudio s) = conversation s"
  by (simp add: idle_playback_def tryPlayAudio_def drain_empty playNext_def)

lemma step_quiet:
  assumes "idle_playback s" "quiet e"
  shows "idle_playback (step s e) \<and> loaded (step s e) = loaded s \<and>
     conversation (step s e) = conversation s"
proof (cases e)
  case (Server m)
  show ?thesis
  proof (cases m)
    case (TtsChunk k a)
    with Server assms show ?thesis
      by (cases a) (simp_all add: handleTtsChunk_def)
  next
    case (TtsPhraseDone k)
    with Server assms show ?thesis
      by (simp add: finalizePhrase_def idle_playback_def)
  next
    case TtsComplete
    with Server assms show ?thesis
      by (simp add: tryPlayAudio_idle)
  next
    case (LlmToken t d)
    with Server assms show ?thesis
      by (cases d) (simp_all add: idle_playback_def)
  next
    case (Log t)
    with Server assms show ?thesis
      by (simp add: idle_playback_def appendLog_def Let_def)
  qed (use Server assms in \<open>simp_all add: idle_playback_def\<close>)
next
  case ClickRecord
  with assms show ?thesis
    by (simp add: idle_playback_def startRecording_def resetPlayback_def)
next
  case ClickStop
  with assms show ?thesis
    by (simp add: idle_playback_def stopRecording_def)
next
  case ClickCancel
  with assms show ?thesis
    by (simp add: idle_playback_def sendCancel_def resetPlayback_def)
next
  case PlayerEnded
  with assms show ?thesis
    by (simp add: idle_playback_def player_ended_def)
next
  case WsClose
  with assms show ?thesis
    by (simp add: idle_playback_def ws_onclose_def resetPlayback_def)
qed

lemma run_quiet:
  "idle_playback s \<Longrightarrow> list_all quiet evs \<Longrightarrow>
   idle_playback (run s evs) \<and> loaded (run s evs) = loaded s \<and>
   conversation (run s evs) = conversation s"
proof (induction evs arbitrary: s)
  case Nil
  then show ?case by (simp add: run_def)
next
  case (Cons e es)
  then have "idle_playback (step s e) \<and> loaded (step s e) = loaded s \<and>
      conversation (step s e) = conversation s"
    by (intro step_quiet) simp_all
  with Cons show ?case
    by (simp add: run_Cons)
qed

text \<open>
  Claim C6, as stated, fails: the client does not filter what arrives after a cancel,
  and \<^verbatim>\<open>pendingAssistant\<close> still holds the fragments received before it, so a terminal
  token that arrives after the cancel commits the partial reply.
\<close>

theorem cancel_then_terminal_token_commits:
  "conversation (run init
      [ClickRecord, Server (FinalTranscript ''hi''), Server (LlmToken (Some ''Hel'') False),
       ClickCancel]) = [(''User'', ''hi'')] \<and>
   conversation (run init
      [ClickRecord, Server (FinalTranscript ''hi''), Server (LlmToken (Some ''Hel'') False),
       ClickCancel, Server (LlmToken None True)]) = [(''User'', ''hi''), (''Assistant'', ''Hel'')]"
  by (simp add: run_def init_def startRecording_def resetPlayback_def sendCancel_def
      pushConversation_def trim_def is_space_def token_text_def Let_def)

text \<open>
  Claim C6, amended. A cancel with the socket open clears the phrase buffers and the
  playback queue, resets the cursor to 1 and stops playback, and commits nothing. From
  then on nothing is handed to the audio element and nothing is committed for as long
  as no chunk with a payload, no final transcript and no terminal token arrives.
\<close>

theorem cancel_clears_playback:
  assumes "ws_open s" and "list_all quiet evs"
  shows "phraseBuffers (sendCancel s) = [] \<and> playbackQueue (sendCancel s) = [] \<and>
     nextSeqToPlay (sendCancel s) = 1 \<and> \<not> playing (sendCancel s) \<and>
     conversation (sendCancel s) = conversation s \<and> loaded (sendCancel s) = loaded s \<and>
     loaded (run (sendCancel s) evs) = loaded s \<and>
     conversation (run (sendCancel s) evs) = conversation s"
proof -
  have c: "sendCancel s = resetPlayback s"
    using assms(1) by (simp add: sendCancel_def)
  have "idle_playback (resetPlayback s)"
    by (simp add: idle_playback_def resetPlayback_def)
  from run_quiet [OF this assms(2)] show ?thesis
    unfolding c by (simp add: resetPlayback_def)
qed

theorem cancel_clears_playback_witness:
  "loaded (run (sendCancel (run init
      [ClickRecord, Server (TtsChunk 1 (Some [1])), Server (TtsChunk 2 (Some [2])),
       Server (TtsPhraseDone 2)]))
      [Server (TtsPhraseDone 1), Server (LlmToken (Some ''a'') False), Server TtsComplete,
       PlayerEnded, ClickStop]) = [] \<and>
   phraseBuffers (sendCancel (run init
      [ClickRecord, Server (TtsChunk 1 (Some [1])), Server (TtsChunk 2 (Some [2])),
       Server (TtsPhraseDone 2)])) = []"
proof -
  let ?s = "run init [ClickRecord, Server (TtsChunk 1 (Some [1])), Server (TtsChunk 2 (Some [2])),
       Server (TtsPhraseDone 2)]"
  have o: "ws_open ?s" and l: "loaded ?s = []"
    by (simp_all add: run_def init_def startRecording_def resetPlayback_def handleTtsChunk_def
        finalizePhrase_def tryPlayAudio_def playNext_def drain.simps)
  from cancel_clears_playback [OF o, of "[Server (TtsPhraseDone 1), Server (LlmToken (Some ''a'') False),
      Server TtsComplete, PlayerEnded, ClickStop]"]
  show ?thesis
    by (simp add: l)
qed

section \<open>Late completions\<close>

text \<open>
  Claim C7, as stated, fails: messages carry no cycle tag and the client keeps none, so
  a chunk of the aborted cycle that arrives after the cancel is buffered, and played when
  its done marker follows.
\<close>

theorem late_chunk_is_played:
  "loaded (run init
      [ClickRecord, Server (FinalTranscript ''hi''), Server (LlmToken (Some ''Hello.'') False),
       ClickCancel]) = [] \<and>
   loaded (run init
      [ClickRecord, Server (FinalTranscript ''hi''), Server (LlmToken (Some ''Hello.'') False),
       ClickCancel, Server (TtsChunk 1 (Some [82, 73])), Server (TtsPhraseDone 1)]) = [[82, 73]]"
  by (simp add: run_def init_def startRecording_def resetPlayback_def sendCancel_def
      pushConversation_def trim_def is_space_def token_text_def Let_def handleTtsChunk_def
      finalizePhrase_def tryPlayAudio_def playNext_def drain.simps Blob_def)

lemma run_done_markers:
  "phraseBuffers s = [] \<Longrightarrow> run s (map (\<lambda>k. Server (TtsPhraseDone k)) ks) = s"
  by (induction ks) (simp_all add: run_def finalizePhrase_def)

text \<open>
  Claim C7, amended. After a cancel the map is empty, so late done markers find no entry
  and are dropped without any effect, however many arrive. A late chunk is not
  recognised as stale: it starts a new entry, and when it belongs to phrase 1 and its
  done marker follows, it is handed to the audio element.
\<close>

theorem late_done_markers_dropped:
  assumes "ws_open s"
  shows "run (sendCancel s) (map (\<lambda>k. Server (TtsPhraseDone k)) ks) = sendCancel s \<and>
     phraseBuffers (step (sendCancel s) (Server (TtsChunk k (Some b)))) =
       [(k, \<lparr>chunks = [b], is_done = False\<rparr>)] \<and>
     loaded (run (sendCancel s) [Server (TtsChunk 1 (Some b)), Server (TtsPhraseDone 1)]) =
       loaded s @ [b]"
proof -
  have c: "sendCancel s = resetPlayback s"
    using assms by (simp add: sendCancel_def)
  have "run (resetPlayback s) (map (\<lambda>k. Server (TtsPhraseDone k)) ks) = resetPlayback s"
    by (rule run_done_markers) (simp add: resetPlayback_def)
  moreover have "phraseBuffers (step (resetPlayback s) (Server (TtsChunk k (Some b)))) =
       [(k, \<lparr>chunks = [b], is_done = False\<rparr>)]"
    by (simp add: resetPlayback_def handleTtsChunk_def)
  moreover have "loaded (run (resetPlayback s) [Server (TtsChunk 1 (Some b)), Server (TtsPhraseDone 1)]) =
       loaded s @ [b]"
    by (simp add: run_def resetPlayback_def handleTtsChunk_def finalizePhrase_def tryPlayAudio_def
        playNext_def drain.simps Blob_def)
  ultimately show ?thesis
    unfolding c by simp
qed

theorem late_done_markers_dropped_witness:
  "run (sendCancel (run init [ClickRecord]))
      (map (\<lambda>k. Server (TtsPhraseDone k)) [2, 1, 3]) = sendCancel (run init [ClickRecord])"
proof -
  have "ws_open (run init [ClickRecord])"
    by (simp add: run_def init_def startRecording_def resetPlayback_def)
  from late_done_markers_dropped [OF this, of "[2, 1, 3]"] show ?thesis
    by simp
qed

section \<open>Conversation memory\<close>

lemma fragments_append: "fragments (p @ q) = fragments p @ fragments q"
  by (induction p rule: fragments.induct) simp_all

lemma step_streaming:
  assumes "streaming e"
  shows "conversation (step s e) = conversation s \<and>
     pendingAssistant (step s e) = pendingAssistant s @ fragments [e]"
proof (cases e)
  case (Server m)
  show ?thesis
  proof (cases m)
    case (TtsChunk k a)
    with Server show ?thesis
      by (cases a) (simp_all add: handleTtsChunk_def Let_def)
  next
    case (TtsPhraseDone k)
    with Server show ?thesis
      by (cases "map_of (phraseBuffers s) k")
         (simp_all add: finalizePhrase_def tryPlayAudio_def Let_def playNext_fields drain_memory)
  next
    case TtsComplete
    with Server show ?thesis
      by (simp add: tryPlayAudio_def Let_def playNext_fields drain_memory)
  next
    case (LlmToken t d)
    with Server assms show ?thesis
      by (cases d) simp_all
  next
    case (Log t)
    with Server show ?thesis
      by (simp add: appendLog_def Let_def)
  qed (use Server assms in simp_all)
next
  case ClickRecord
  with assms show ?thesis by simp
next
  case ClickStop
  then show ?thesis by (simp add: stopRecording_def)
next
  case ClickCancel
  then show ?thesis by (simp add: sendCancel_def resetPlayback_def)
next
  case PlayerEnded
  then show ?thesis by (simp add: player_ended_def playNext_fields)
next
  case WsClose
  then show ?thesis by (simp add: ws_onclose_def resetPlayback_def)
qed

lemma run_streaming:
  "list_all streaming evs \<Longrightarrow>
   conversation (run s evs) = conversation s \<and>
   pendingAssistant (run s evs) = pendingAssistant s @ fragments evs"
proof (induction evs arbitrary: s)
  case Nil
  show ?case by (simp add: run_def)
next
  case (Cons e es)
  then have a: "conversation (step s e) = conversation s"
    "pendingAssistant (step s e) = pendingAssistant s @ fragments [e]"
    using step_streaming [of e s] by simp_all
  from Cons have b: "conversation (run (step s e) es) = conversation (step s e)"
    "pendingAssistant (run (step s e) es) = pendingAssistant (step s e) @ fragments es"
    by simp_all
  show ?case
    using a b fragments_append [of "[e]" es] by (simp add: run_Cons)
qed

text \<open>
  Claim C8, as stated, fails: what is committed is not the concatenation of the
  fragments but that text with the white space at both ends trimmed away.
\<close>

theorem committed_reply_is_trimmed:
  "fragments [Server (LlmToken (Some '' Hi'') False), Server (LlmToken (Some ''. '') False)] = '' Hi. '' \<and>
   conversation (run init
     [Server (LlmToken (Some '' Hi'') False), Server (LlmToken (Some ''. '') False),
      Server (LlmToken None True)]) = [(''Assistant'', ''Hi.'')]"
  by (simp add: run_def init_def pushConversation_def trim_def is_space_def token_text_def Let_def)

text \<open>
  Claim C8, amended. While a token stream runs (no terminal token, no final transcript,
  no click on Record) the conversation does not change and \<^verbatim>\<open>pendingAssistant\<close> grows by
  the fragments in arrival order. The terminal token commits that text trimmed of the
  white space at both ends, as one item of role Assistant with only the latest twelve
  items kept, and commits nothing when the trimmed text is empty; it leaves
  \<^verbatim>\<open>pendingAssistant\<close> empty either way.
\<close>

theorem reply_committed_on_terminal_token:
  assumes "list_all streaming evs"
  shows "conversation (run s evs) = conversation s \<and>
     pendingAssistant (run s evs) = pendingAssistant s @ fragments evs \<and>
     conversation (run s (evs @ [Server (LlmToken t True)])) =
       (if trim (pendingAssistant s @ fragments evs) = [] then conversation s
        else drop (length (conversation s) + 1 - 12)
               (conversation s @ [(''Assistant'', trim (pendingAssistant s @ fragments evs))])) \<and>
     pendingAssistant (run s (evs @ [Server (LlmToken t True)])) = []"
proof -
  have r: "conversation (run s evs) = conversation s"
    "pendingAssistant (run s evs) = pendingAssistant s @ fragments evs"
    using run_streaming [OF assms, of s] by simp_all
  have e: "trim [] = []"
    by (simp add: trim_def)
  show ?thesis
    by (cases "pendingAssistant s @ fragments evs = []")
       (simp_all add: r e run_snoc pushConversation_def Let_def del: append_is_Nil_conv)
qed

theorem reply_committed_on_terminal_token_witness:
  "conversation (run init
     [Server (LlmToken (Some ''Hello '') False), Server (TtsChunk 1 (Some [1])),
      Server (LlmToken (Some ''there.'') False), Server (LlmToken None True)]) =
     [(''Assistant'', ''Hello there.'')]"
  using reply_committed_on_terminal_token [of
     "[Server (LlmToken (Some ''Hello '') False), Server (TtsChunk 1 (Some [1])),
       Server (LlmToken (Some ''there.'') False)]" init None]
  by (simp add: init_def trim_def is_space_def token_text_def)

section \<open>The resampler\<close>

lemma resample_Inr:
  assumes "0 < n" and "resample rnd t n frame = Inr out"
  shows "int (length out) = \<lfloor>rnd (real (length frame) * rnd (real t / real n))\<rfloor>"
    and "\<And>i. i < length out \<Longrightarrow> out ! i = resample_at rnd (rnd (real t / real n)) frame i"
  using assms by (auto simp: resample_def Let_def split: if_splits)

lemma resample_returns:
  assumes "0 < n" and "0 \<le> \<lfloor>rnd (real (length frame) * rnd (real t / real n))\<rfloor>"
  shows "\<exists>out. resample rnd t n frame = Inr out"
  using assms by (simp add: resample_def Let_def)

lemma resample_exact_length:
  assumes "0 < n"
  shows "map_sum id length (resample (\<lambda>x. x) t n frame) = Inr ((length frame * t) div n)"
proof -
  have "\<lfloor>real (length frame) * (real t / real n)\<rfloor> = int ((length frame * t) div n)"
    using floor_divide_of_nat_eq [of "length frame * t" n, where ?'a = real] by simp
  moreover have "\<not> real (length frame) * (real t / real n) < 0"
    by (simp add: not_less)
  ultimately show ?thesis
    using assms by (simp add: resample_def Let_def)
qed

lemma resample_length_rnd:
  assumes "0 < n" and "\<forall>x. 0 \<le> x \<longrightarrow> 0 \<le> rnd x"
  shows "\<exists>out. resample rnd t n frame = Inr out \<and>
           int (length out) = \<lfloor>rnd (real (length frame) * rnd (real t / real n))\<rfloor>"
proof -
  have "0 \<le> rnd (real t / real n)"
    using assms(2) by simp
  then have "0 \<le> rnd (real (length frame) * rnd (real t / real n))"
    using assms(2) by simp
  then have "0 \<le> \<lfloor>rnd (real (length frame) * rnd (real t / real n))\<rfloor>"
    by simp
  from resample_returns [of n rnd frame t, OF assms(1) this]
  obtain out where out: "resample rnd t n frame = Inr out"
    by blast
  from resample_Inr(1) [of n rnd t frame out, OF assms(1) out] out show ?thesis
    by blast
qed

lemma binary64_nonneg: "0 \<le> x \<Longrightarrow> 0 \<le> binary64 x"
  by (auto simp: binary64_def pow2_def round_even_def Let_def intro!: mult_nonneg_nonneg)

text \<open>
  The two roundings of the length computation for 90 samples at 10000 to 7000: the
  quotient \<open>7 / 10\<close>, and 90 times its rounded value, which is
  \<open>141863388262170615 / 2\<^sup>5\<^sup>1\<close>.
\<close>

lemma binary64_seven_tenths: "binary64 (7 / 10) = 3152519739159347 / 4503599627370496"
  by (simp add: binary64_def exponent_def pow2_def round_even_def Let_def compute_bitlen)

lemma binary64_ninety_times:
  "binary64 (141863388262170615 / 2251799813685248) = 8866461766385663 / 140737488355328"
  by (simp add: binary64_def exponent_def pow2_def round_even_def Let_def compute_bitlen)

text \<open>
  Claim C4, as stated, fails. The source computes the ratio and the product in binary64,
  and the two roundings can carry the product below the integer that \<open>L \<cdot> t / n\<close> reaches.
  For a block of 90 samples at an input rate of 10000 and a target rate of 7000 the exact
  value is \<open>90 \<cdot> 7000 / 10000 = 63\<close>; the quotient rounds to a number just below
  \<open>7 / 10\<close>, the product to \<open>63 - 2\<^sup>-\<^sup>4\<^sup>7\<close>, and the call returns 62 samples.
\<close>

theorem resample_length_rounded_down:
  "map_sum id length (resample binary64 7000 10000 (replicate 90 0)) = Inr 62 \<and>
   \<lfloor>real 90 * (real 7000 / real 10000)\<rfloor> = 63"
proof -
  define frame :: "real list" where "frame = replicate 90 0"
  have len: "length frame = 90"
    by (simp only: frame_def length_replicate)
  have "map_sum id length (resample binary64 7000 10000 frame) = Inr 62"
    by (simp add: resample_def Let_def len binary64_seven_tenths binary64_ninety_times)
  then show ?thesis
    unfolding frame_def by simp
qed

text \<open>
  Claim C4, amended. For an input rate above zero a call of \<^verbatim>\<open>resample\<close> on a block of
  \<open>L\<close> samples returns, and returns exactly as many samples as the floor of the product
  of \<open>L\<close> and the ratio of the rates, the quotient and the product each rounded to
  binary64 as the source computes them. In exact arithmetic that number is the floor of
  \<open>L \<cdot> t / n\<close>.
\<close>

theorem resample_output_length:
  assumes "0 < n"
  shows "(\<exists>out. resample binary64 t n frame = Inr out \<and>
            int (length out) = \<lfloor>binary64 (real (length frame) * binary64 (real t / real n))\<rfloor>) \<and>
         (\<exists>out. resample (\<lambda>x. x) t n frame = Inr out \<and> length out = (length frame * t) div n)"
proof -
  have "\<exists>out. resample binary64 t n frame = Inr out \<and>
      int (length out) = \<lfloor>binary64 (real (length frame) * binary64 (real t / real n))\<rfloor>"
    using assms by (intro resample_length_rnd) (simp_all add: binary64_nonneg)
  moreover have "\<exists>out. resample (\<lambda>x. x) t n frame = Inr out \<and> length out = (length frame * t) div n"
    using resample_exact_length [OF assms, of t frame]
    by (cases "resample (\<lambda>x. x) t n frame") simp_all
  ultimately show ?thesis
    by blast
qed

text \<open>
  The same for 128 samples at 48000 to 16000: the quotient \<open>1 / 3\<close>, and 128 times its
  rounded value, which binary64 represents.
\<close>

lemma binary64_third: "binary64 (1 / 3) = 6004799503160661 / 18014398509481984"
  by (simp add: binary64_def exponent_def pow2_def round_even_def Let_def compute_bitlen)

lemma binary64_quantum_times:
  "binary64 (6004799503160661 / 140737488355328) = 6004799503160661 / 140737488355328"
  by (simp add: binary64_def exponent_def pow2_def round_even_def Let_def compute_bitlen)

theorem resample_output_length_witness:
  "(\<exists>out. resample binary64 16000 48000 (replicate 128 (1 / 2)) = Inr out \<and> length out = 42) \<and>
   (\<exists>out. resample (\<lambda>x. x) 16000 48000 (replicate 128 (1 / 2)) = Inr out \<and> length out = 42)"
proof -
  define frame :: "real list" where "frame = replicate 128 (1 / 2)"
  have len: "length frame = 128"
    by (simp only: frame_def length_replicate)
  have "\<lfloor>binary64 (real (length frame) * binary64 (real 16000 / real 48000))\<rfloor> = 42"
    by (simp add: len binary64_third binary64_quantum_times)
  moreover have "(length frame * 16000) div 48000 = 42"
    by (simp add: len)
  ultimately have
    "(\<exists>out. resample binary64 16000 48000 frame = Inr out \<and> length out = 42) \<and>
     (\<exists>out. resample (\<lambda>x. x) 16000 48000 frame = Inr out \<and> length out = 42)"
    using resample_output_length [of 48000 16000 frame] by simp
  then show ?thesis
    unfolding frame_def .
qed

text \<open>
  Claim C3, as stated, fails. \<^verbatim>\<open>resample\<close> keeps nothing from one call to the next:
  \<^verbatim>\<open>lastSample\<close> is a local variable, set from the block at hand. With the rates the
  client uses, 48000 to 16000, and two render quanta of 128 samples, the two calls return
  42 samples each, and a call on the 256 samples together returns 85.
\<close>

theorem consecutive_blocks_differ:
  "resample (\<lambda>x. x) 16000 48000 (replicate 128 0 @ replicate 128 1) \<noteq>
   resample_blocks (\<lambda>x. x) 16000 48000 (replicate 128 0) (replicate 128 1)"
proof -
  define A :: "real list" where "A = replicate 128 0"
  define B :: "real list" where "B = replicate 128 1"
  have len: "length A = 128" "length B = 128"
    by (simp_all only: A_def B_def length_replicate)
  have ab: "map_sum id length (resample (\<lambda>x. x) 16000 48000 (A @ B)) = Inr 85"
    by (subst resample_exact_length) (simp_all add: len)
  have a: "map_sum id length (resample (\<lambda>x. x) 16000 48000 A) = Inr 42"
    by (subst resample_exact_length) (simp_all add: len)
  have b: "map_sum id length (resample (\<lambda>x. x) 16000 48000 B) = Inr 42"
    by (subst resample_exact_length) (simp_all add: len)
  from a obtain oa where oa: "resample (\<lambda>x. x) 16000 48000 A = Inr oa" "length oa = 42"
    by (cases "resample (\<lambda>x. x) 16000 48000 A") simp_all
  from b obtain ob where ob: "resample (\<lambda>x. x) 16000 48000 B = Inr ob" "length ob = 42"
    by (cases "resample (\<lambda>x. x) 16000 48000 B") simp_all
  have "map_sum id length (resample_blocks (\<lambda>x. x) 16000 48000 A B) = Inr 84"
    by (simp add: resample_blocks_def oa ob)
  with ab have "resample (\<lambda>x. x) 16000 48000 (A @ B) \<noteq> resample_blocks (\<lambda>x. x) 16000 48000 A B"
    by auto
  then show ?thesis
    unfolding A_def B_def .
qed

lemma resample_at_append:
  assumes "\<lfloor>rnd (real i / ratio)\<rfloor> + 1 < int (length A)"
  shows "resample_at rnd ratio (A @ B) i = resample_at rnd ratio A i"
proof -
  let ?i0 = "\<lfloor>rnd (real i / ratio)\<rfloor>"
  show ?thesis
  proof (cases "ratio = 0 \<or> ?i0 < 0")
    case True
    then show ?thesis by (auto simp: resample_at_def Let_def)
  next
    case False
    then have "\<not> ?i0 < 0"
      by blast
    with assms have i0: "0 \<le> ?i0" "nat ?i0 < length A" "nat (?i0 + 1) < length A"
      by linarith+
    have m: "min (?i0 + 1) (int (length A) - 1) = ?i0 + 1"
      "min (?i0 + 1) (int (length (A @ B)) - 1) = ?i0 + 1"
      using assms by simp_all
    show ?thesis
      using False i0 assms unfolding resample_at_def Let_def m
      by (simp add: nth_append)
  qed
qed

text \<open>
  Claim C3, amended. Each call interpolates inside its own block, the upper neighbour
  clamped to the block's last sample, and nothing passes from one call to the next. So
  resampling two blocks together agrees with resampling the first alone at every output
  index whose two neighbours lie inside the first block.
\<close>

theorem resample_agrees_inside_block:
  assumes "0 < n"
    and "resample rnd t n A = Inr a"
    and "resample rnd t n (A @ B) = Inr ab"
    and "i < length a" and "i < length ab"
    and "\<lfloor>rnd (real i / rnd (real t / real n))\<rfloor> + 1 < int (length A)"
  shows "ab ! i = a ! i"
proof -
  have "a ! i = resample_at rnd (rnd (real t / real n)) A i"
    by (rule resample_Inr(2) [of n rnd t A a, OF assms(1) assms(2) assms(4)])
  moreover have "ab ! i = resample_at rnd (rnd (real t / real n)) (A @ B) i"
    by (rule resample_Inr(2) [of n rnd t "A @ B" ab, OF assms(1) assms(3) assms(5)])
  ultimately show ?thesis
    using assms(6) by (simp add: resample_at_append)
qed

theorem resample_agrees_inside_block_witness:
  "resample (\<lambda>x. x) 16000 8000 [0, 1] = Inr [0, 16383, 32767, 32767] \<and>
   resample (\<lambda>x. x) 16000 8000 ([0, 1] @ [0, 0]) = Inr [0, 16383, 32767, 16383, 0, 0, 0, 0] \<and>
   [0, 16383, 32767, 16383, 0, 0, 0, 0] ! 1 = ([0, 16383, 32767, 32767] :: 16 word list) ! 1"
proof -
  have a: "resample (\<lambda>x. x) 16000 8000 [0, 1] = Inr [0, 16383, 32767, 32767]"
    by (simp add: resample_def resample_at_def to_int16_def Let_def upt_conv_Cons)
  have ab: "resample (\<lambda>x. x) 16000 8000 ([0, 1] @ [0, 0]) = Inr [0, 16383, 32767, 16383, 0, 0, 0, 0]"
    by (simp add: resample_def resample_at_def to_int16_def Let_def upt_conv_Cons)
  have "[0, 16383, 32767, 16383, 0, 0, 0, 0] ! 1 = ([0, 16383, 32767, 32767] :: 16 word list) ! 1"
    by (rule resample_agrees_inside_block [of 8000 "\<lambda>x. x" 16000 "[0, 1]" _ "[0, 0]", OF _ a ab])
       simp_all
  with a ab show ?thesis
    by blast
qed

section \<open>The framer\<close>

lemma array_set_length:
  "off + length src \<le> length tgt \<Longrightarrow> length (array_set src off tgt) = length tgt"
  by (simp add: array_set_def)

lemma array_set_take:
  "off + length src \<le> length tgt \<Longrightarrow>
   take (off + length src) (array_set src off tgt) = take off tgt @ src"
  by (simp add: array_set_def)

lemma emit_frames_spec:
  assumes "0 < chunkSamples p" and "writePos p \<le> length (buffer p)"
  shows "\<exists>p' fs. emit_frames p = Some p' \<and> stream p' = stream p \<and>
     writePos p' < chunkSamples p \<and> writePos p' \<le> length (buffer p') \<and>
     chunkSamples p' = chunkSamples p \<and> length (buffer p') = length (buffer p) \<and>
     posted p' = posted p @ fs \<and> (\<forall>f \<in> set fs. length f = chunkSamples p)"
  using assms
proof (induction "writePos p" arbitrary: p rule: less_induct)
  case less
  let ?cs = "chunkSamples p" and ?wp = "writePos p" and ?buf = "buffer p"
  show ?case
  proof (cases "?cs \<le> ?wp")
    case False
    then have "emit_frames p = Some p"
      by (subst emit_frames.simps) simp
    with False less.prems show ?thesis
      by (intro exI [of _ p] exI [of _ "[]"]) simp
  next
    case True
    let ?rest = "subarray ?cs ?wp ?buf"
    let ?q = "p\<lparr>buffer := array_set ?rest 0 ?buf, writePos := ?wp - ?cs,
                 posted := posted p @ [subarray 0 ?cs ?buf]\<rparr>"
    have rest: "length ?rest = ?wp - ?cs"
      using less.prems by (simp add: subarray_def)
    have frame: "subarray 0 ?cs ?buf = take ?cs ?buf" "length (take ?cs ?buf) = ?cs"
      using True less.prems by (simp_all add: subarray_def)
    have len: "length (buffer ?q) = length ?buf"
      using less.prems rest by (simp add: array_set_length)
    have "take (0 + length ?rest) (array_set ?rest 0 ?buf) = take 0 ?buf @ ?rest"
      using less.prems rest by (intro array_set_take) simp
    then have "take (length ?rest) (array_set ?rest 0 ?buf) = ?rest"
      by simp
    then have head: "take (?wp - ?cs) (array_set ?rest 0 ?buf) = ?rest"
      unfolding rest .
    have "take ?cs ?buf @ drop ?cs (take ?wp ?buf) = take ?wp ?buf"
      using True by (metis append_take_drop_id min.absorb1 take_take)
    then have "take ?cs ?buf @ ?rest = take ?wp ?buf"
      by (simp add: subarray_def)
    then have st: "stream ?q = stream p"
      by (simp add: stream_def head frame)
    have e: "emit_frames p = emit_frames ?q"
      using True by (subst emit_frames.simps) simp
    have "writePos ?q < ?wp"
      using True less.prems by simp
    moreover have "0 < chunkSamples ?q" "writePos ?q \<le> length (buffer ?q)"
      using less.prems len by simp_all
    ultimately obtain p' fs where p': "emit_frames ?q = Some p'" "stream p' = stream ?q"
        "writePos p' < chunkSamples ?q" "writePos p' \<le> length (buffer p')"
        "chunkSamples p' = chunkSamples ?q" "length (buffer p') = length (buffer ?q)"
        "posted p' = posted ?q @ fs" "\<forall>f \<in> set fs. length f = chunkSamples ?q"
      using less.hyps [of ?q] by blast
    show ?thesis
    proof (intro exI [of _ p'] exI [of _ "take ?cs ?buf # fs"] conjI)
      show "emit_frames p = Some p'" using e p'(1) by simp
      show "stream p' = stream p" using p'(2) st by simp
      show "writePos p' < ?cs" using p'(3) by simp
      show "writePos p' \<le> length (buffer p')" by (rule p'(4))
      show "chunkSamples p' = ?cs" using p'(5) by simp
      show "length (buffer p') = length ?buf" using p'(6) len by simp
      show "posted p' = posted p @ take ?cs ?buf # fs" using p'(7) frame(1) by simp
      show "\<forall>f \<in> set (take ?cs ?buf # fs). length f = ?cs" using p'(8) frame(2) by simp
    qed
  qed
qed

lemma ensureCapacity_spec:
  assumes "writePos p \<le> length (buffer p)"
  shows "writePos p + a \<le> length (buffer (ensureCapacity a p))"
    and "take (writePos p) (buffer (ensureCapacity a p)) = take (writePos p) (buffer p)"
    and "length (buffer p) \<le> length (buffer (ensureCapacity a p))"
    and "length (buffer p) < writePos p + a \<Longrightarrow>
         2 * length (buffer p) \<le> length (buffer (ensureCapacity a p))"
    and "writePos (ensureCapacity a p) = writePos p"
    and "chunkSamples (ensureCapacity a p) = chunkSamples p"
    and "posted (ensureCapacity a p) = posted p"
  using assms by (auto simp: ensureCapacity_def array_set_def subarray_def)

lemma enqueue_spec:
  assumes "0 < chunkSamples p" and "writePos p \<le> length (buffer p)"
  shows "\<exists>p' fs. enqueue samples p = Some (Inr p') \<and> stream p' = stream p @ samples \<and>
     writePos p' < chunkSamples p \<and> writePos p' \<le> length (buffer p') \<and>
     chunkSamples p' = chunkSamples p \<and> length (buffer p) \<le> length (buffer p') \<and>
     posted p' = posted p @ fs \<and> (\<forall>f \<in> set fs. length f = chunkSamples p)"
proof -
  let ?p1 = "ensureCapacity (length samples) p"
  let ?wp = "writePos p"
  note cap = ensureCapacity_spec [OF assms(2), of "length samples"]
  let ?p2 = "?p1\<lparr>buffer := array_set samples (writePos ?p1) (buffer ?p1),
                   writePos := writePos ?p1 + length samples\<rparr>"
  have len2: "length (buffer ?p2) = length (buffer ?p1)"
    using cap(1) by (simp add: cap(5) array_set_length)
  have "take (?wp + length samples) (array_set samples ?wp (buffer ?p1)) =
      take ?wp (buffer ?p1) @ samples"
    using cap(1) by (rule array_set_take)
  then have st: "stream ?p2 = stream p @ samples"
    by (simp add: stream_def cap(2) cap(5) cap(7))
  have "0 < chunkSamples ?p2" "writePos ?p2 \<le> length (buffer ?p2)"
    using assms(1) cap(1) len2 by (simp_all add: cap(5) cap(6))
  from emit_frames_spec [OF this]
  obtain p' fs where p': "emit_frames ?p2 = Some p'" "stream p' = stream ?p2"
      "writePos p' < chunkSamples ?p2" "writePos p' \<le> length (buffer p')"
      "chunkSamples p' = chunkSamples ?p2" "length (buffer p') = length (buffer ?p2)"
      "posted p' = posted ?p2 @ fs" "\<forall>f \<in> set fs. length f = chunkSamples ?p2"
    by blast
  have e: "enqueue samples p = Some (Inr p')"
    using cap(1) p'(1) by (simp add: enqueue_def Let_def cap(5))
  show ?thesis
  proof (intro exI [of _ p'] exI [of _ fs] conjI)
    show "enqueue samples p = Some (Inr p')" by (rule e)
    show "stream p' = stream p @ samples" using p'(2) st by simp
    show "writePos p' < chunkSamples p" using p'(3) by (simp add: cap(6))
    show "writePos p' \<le> length (buffer p')" by (rule p'(4))
    show "chunkSamples p' = chunkSamples p" using p'(5) by (simp add: cap(6))
    show "length (buffer p) \<le> length (buffer p')" using p'(6) len2 cap(3) by simp
    show "posted p' = posted p @ fs" using p'(7) by (simp add: cap(7))
    show "\<forall>f \<in> set fs. length f = chunkSamples p" using p'(8) by (simp add: cap(6))
  qed
qed

lemma enqueue_all_spec:
  assumes "0 < chunkSamples p" and "writePos p \<le> length (buffer p)"
  shows "\<exists>p' fs. enqueue_all blocks p = Some (Inr p') \<and> stream p' = stream p @ concat blocks \<and>
     writePos p' \<le> length (buffer p') \<and> chunkSamples p' = chunkSamples p \<and>
     length (buffer p) \<le> length (buffer p') \<and>
     posted p' = posted p @ fs \<and> (\<forall>f \<in> set fs. length f = chunkSamples p)"
  using assms
proof (induction blocks arbitrary: p)
  case Nil
  then show ?case
    by (intro exI [of _ p] exI [of _ "[]"]) simp
next
  case (Cons b bs)
  from enqueue_spec [OF Cons.prems, of b]
  obtain q fs where q: "enqueue b p = Some (Inr q)" "stream q = stream p @ b"
      "writePos q \<le> length (buffer q)" "chunkSamples q = chunkSamples p"
      "length (buffer p) \<le> length (buffer q)" "posted q = posted p @ fs"
      "\<forall>f \<in> set fs. length f = chunkSamples p"
    by blast
  have "0 < chunkSamples q"
    using Cons.prems(1) q(4) by simp
  from Cons.IH [OF this q(3)]
  obtain p' gs where p': "enqueue_all bs q = Some (Inr p')" "stream p' = stream q @ concat bs"
      "writePos p' \<le> length (buffer p')" "chunkSamples p' = chunkSamples q"
      "length (buffer q) \<le> length (buffer p')" "posted p' = posted q @ gs"
      "\<forall>f \<in> set gs. length f = chunkSamples q"
    by blast
  show ?case
  proof (intro exI [of _ p'] exI [of _ "fs @ gs"] conjI)
    show "enqueue_all (b # bs) p = Some (Inr p')" using q(1) p'(1) by simp
    show "stream p' = stream p @ concat (b # bs)" using q(2) p'(2) by simp
    show "writePos p' \<le> length (buffer p')" by (rule p'(3))
    show "chunkSamples p' = chunkSamples p" using q(4) p'(4) by simp
    show "length (buffer p) \<le> length (buffer p')" using q(5) p'(5) by simp
    show "posted p' = posted p @ fs @ gs" using q(6) p'(6) by simp
    show "\<forall>f \<in> set (fs @ gs). length f = chunkSamples p" using q(7) q(4) p'(7) by auto
  qed
qed

text \<open>
  Claim C5. Take a processor with a frame length above zero whose write position lies
  inside its buffer, as the constructor makes it, and any finite sequence of appends.
  Every append returns; the frames posted followed by the samples left in the buffer
  are, sample for sample and in order, what was there before followed by everything
  appended, so the number of samples posted plus the number left equals the number there
  before plus the number appended; every frame posted has the frame length; the buffer
  never shrinks; and when \<^verbatim>\<open>ensureCapacity\<close> finds the buffer too small, the new
  buffer is at least twice as long.
\<close>

theorem framer_conserves_samples:
  assumes "0 < chunkSamples p" and "writePos p \<le> length (buffer p)"
  shows "\<exists>p'. enqueue_all blocks p = Some (Inr p') \<and>
     concat (posted p') @ take (writePos p') (buffer p') =
       concat (posted p) @ take (writePos p) (buffer p) @ concat blocks \<and>
     length (concat (posted p')) + writePos p' =
       length (concat (posted p)) + writePos p + length (concat blocks) \<and>
     take (length (posted p)) (posted p') = posted p \<and>
     (\<forall>f \<in> set (drop (length (posted p)) (posted p')). length f = chunkSamples p) \<and>
     length (buffer p) \<le> length (buffer p') \<and>
     (\<forall>a. length (buffer p) < writePos p + a \<longrightarrow>
        2 * length (buffer p) \<le> length (buffer (ensureCapacity a p)))"
proof -
  from enqueue_all_spec [OF assms, of blocks]
  obtain p' fs where p': "enqueue_all blocks p = Some (Inr p')"
      "stream p' = stream p @ concat blocks" "writePos p' \<le> length (buffer p')"
      "length (buffer p) \<le> length (buffer p')" "posted p' = posted p @ fs"
      "\<forall>f \<in> set fs. length f = chunkSamples p"
    by blast
  have c: "concat (posted p') @ take (writePos p') (buffer p') =
       concat (posted p) @ take (writePos p) (buffer p) @ concat blocks"
    using p'(2) by (simp add: stream_def)
  have "length (concat (posted p') @ take (writePos p') (buffer p')) =
       length (concat (posted p) @ take (writePos p) (buffer p) @ concat blocks)"
    by (simp only: c)
  then have n: "length (concat (posted p')) + writePos p' =
       length (concat (posted p)) + writePos p + length (concat blocks)"
    using p'(3) assms(2) by (simp add: min_absorb2)
  show ?thesis
    using p'(1) c n p'(4) p'(5) p'(6) ensureCapacity_spec(4) [OF assms(2)]
    by (intro exI [of _ p']) simp
qed

theorem framer_conserves_samples_witness:
  "\<exists>p'. enqueue_all [[1, 2, 3], [4, 5], [6, 7, 8, 9, 10, 11, 12, 13, 14]] (new_processor 1000 2) =
           Some (Inr p') \<and>
        concat (posted p') @ take (writePos p') (buffer p') =
           [1, 2, 3, 4, 5, 6, 7, 8, 9, 10, 11, 12, 13, 14]"
proof -
  let ?p = "new_processor 1000 2"
  let ?blocks = "[[1, 2, 3], [4, 5], [6, 7, 8, 9, 10, 11, 12, 13, 14]] :: 16 word list list"
  have h: "0 < chunkSamples ?p" "writePos ?p \<le> length (buffer ?p)"
    by (simp_all add: new_processor_def)
  from framer_conserves_samples [OF h, of ?blocks]
  obtain p' where "enqueue_all ?blocks ?p = Some (Inr p')"
      "concat (posted p') @ take (writePos p') (buffer p') =
         concat (posted ?p) @ take (writePos ?p) (buffer ?p) @ concat ?blocks"
    by blast
  moreover have "concat (posted ?p) @ take (writePos ?p) (buffer ?p) @ concat ?blocks =
      [1, 2, 3, 4, 5, 6, 7, 8, 9, 10, 11, 12, 13, 14]"
    by (simp add: new_processor_def)
  ultimately show ?thesis
    by auto
qed

end
